theory Spec2Isabelle
  imports Main "HOL-Library.AList" "HOL-Library.Multiset"
begin

section \<open>Python strings\<close>

text \<open>
  A Python \<open>str\<close> is a sequence of Unicode code points. A code point is modelled as a
  natural number and a string as the list of its code points, so that \<open>length\<close> counts
  what Python's \<open>len\<close> counts. \<open>lit\<close> turns an ASCII literal of the source into such a list.
\<close>

type_synonym codepoint = nat
type_synonym str = "codepoint list"

definition lit :: "string \<Rightarrow> str" where
  "lit s = map of_char s"

text \<open>The exceptions the modelled code can raise.\<close>

datatype exn = ValueError | IndexError

text \<open>
  The code points that \<open>str.split()\<close> and \<open>str.strip()\<close> treat as whitespace (those for
  which \<open>str.isspace\<close> holds): U+0009..U+000D, U+001C..U+0020, U+0085, U+00A0, U+1680,
  U+2000..U+200A, U+2028, U+2029, U+202F, U+205F and U+3000.
\<close>

definition is_space :: "codepoint \<Rightarrow> bool" where
  "is_space c \<longleftrightarrow>
     (9 \<le> c \<and> c \<le> 13) \<or> (28 \<le> c \<and> c \<le> 32) \<or> c = 133 \<or> c = 160 \<or> c = 5760 \<or>
     (8192 \<le> c \<and> c \<le> 8202) \<or> c = 8232 \<or> c = 8233 \<or> c = 8239 \<or> c = 8287 \<or> c = 12288"

text \<open>
  \<open>s.split(sep, maxsplit)\<close>: the string is scanned from the left; at each occurrence of
  \<open>sep\<close> the fragment read so far (\<open>cur\<close>, kept reversed) is closed and the scan resumes
  behind the occurrence. \<open>maxsplit\<close> counts the cuts still allowed; a negative number
  (Python's default \<open>-1\<close>) never reaches \<open>0\<close>, so it allows every cut. An empty
  separator raises \<open>ValueError\<close>.
\<close>

fun split_aux :: "str \<Rightarrow> int \<Rightarrow> str \<Rightarrow> str \<Rightarrow> str list" where
  "split_aux sep maxsplit cur [] = [rev cur]"
| "split_aux sep maxsplit cur (c # cs) =
     (if maxsplit \<noteq> 0 \<and> take (length sep) (c # cs) = sep
      then rev cur # split_aux sep (maxsplit - 1) [] (drop (length sep - 1) cs)
      else split_aux sep maxsplit (c # cur) cs)"

definition str_split :: "str \<Rightarrow> int \<Rightarrow> str \<Rightarrow> exn + str list" where
  "str_split sep maxsplit s =
     (if sep = [] then Inl ValueError else Inr (split_aux sep maxsplit [] s))"

text \<open>
  \<open>s.split()\<close> without a separator: the maximal runs of characters that are not
  whitespace, in order; no empty token is produced.
\<close>

fun split_ws_aux :: "str \<Rightarrow> str \<Rightarrow> str list" where
  "split_ws_aux cur [] = (if cur = [] then [] else [rev cur])"
| "split_ws_aux cur (c # cs) =
     (if is_space c
      then (if cur = [] then split_ws_aux [] cs else rev cur # split_ws_aux [] cs)
      else split_ws_aux (c # cur) cs)"

definition str_split_ws :: "str \<Rightarrow> str list" where
  "str_split_ws s = split_ws_aux [] s"

text \<open>\<open>s.strip()\<close>: the string without its leading and trailing whitespace.\<close>

definition str_strip :: "str \<Rightarrow> str" where
  "str_strip s = rev (dropWhile is_space (rev (dropWhile is_space s)))"

section \<open>Normal question generation\<close>

text \<open>
  \<^verbatim>\<open>
  def generate_normal_questions(text):
      sentences = text.split(". ")
      questions = []
      for sentence in sentences:
          if len(sentence.split()) > 5:
              question = f"What is the meaning of '{sentence.strip()}?'"
              questions.append(question)
      return questions
  \<close>
  The loop is a recursion over the sentences still to visit, with the list built so far
  as accumulator. Code point 39 is the apostrophe.
\<close>

fun normal_loop :: "str list \<Rightarrow> str list \<Rightarrow> str list" where
  "normal_loop [] questions = questions"
| "normal_loop (sentence # rest) questions =
     (if length (str_split_ws sentence) > 5
      then normal_loop rest
             (questions @
                [lit ''What is the meaning of '' @ [39] @ str_strip sentence @ lit ''?'' @ [39]])
      else normal_loop rest questions)"

definition generate_normal_questions :: "str \<Rightarrow> exn + str list" where
  "generate_normal_questions text =
     (case str_split (lit ''. '') (-1) text of
        Inl e \<Rightarrow> Inl e
      | Inr sentences \<Rightarrow> Inr (normal_loop sentences []))"

text \<open>
  The behaviour in the words of the specification: one question per fragment with more
  than five whitespace-separated tokens, the template filled with the fragment itself.
\<close>

definition spec_normal_questions :: "str list \<Rightarrow> str list" where
  "spec_normal_questions fragments =
     map (\<lambda>fragment. lit ''What is the meaning of '' @ [39] @ fragment @ lit ''?'' @ [39])
       (filter (\<lambda>fragment. 5 < length (str_split_ws fragment)) fragments)"

section \<open>Randomness\<close>

text \<open>
  A call of Python's \<open>random\<close> module has several possible results. A computation that
  uses it is modelled by the list of its equally likely outcomes, each either a raised
  exception (\<open>Inl\<close>) or a returned value (\<open>Inr\<close>); \<open>nd_bind\<close> runs a second computation
  on every returned value of a first one and passes an exception on.
\<close>

type_synonym 'a outcomes = "(exn + 'a) list"

definition returns :: "'a \<Rightarrow> 'a outcomes" where
  "returns x = [Inr x]"

definition lift :: "exn + 'a \<Rightarrow> 'a outcomes" where
  "lift r = [r]"

definition nd_bind :: "'a outcomes \<Rightarrow> ('a \<Rightarrow> 'b outcomes) \<Rightarrow> 'b outcomes" where
  "nd_bind m f = concat (map (\<lambda>r. case r of Inl e \<Rightarrow> [Inl e] | Inr x \<Rightarrow> f x) m)"

text \<open>
  \<open>index_choices k n used\<close> lists every way to draw \<open>k\<close> positions below \<open>n\<close> one after
  the other without drawing a position twice (or one of \<open>used\<close>).
\<close>

fun index_choices :: "nat \<Rightarrow> nat \<Rightarrow> nat list \<Rightarrow> nat list list" where
  "index_choices 0 n used = [[]]"
| "index_choices (Suc k) n used =
     concat (map (\<lambda>i. map ((#) i) (index_choices k n (i # used)))
       (filter (\<lambda>i. i \<notin> set used) [0..<n]))"

text \<open>
  \<open>random.sample(population, k)\<close> returns the elements at \<open>k\<close> distinct positions of the
  population, every ordered choice of positions being equally likely, and raises
  \<open>ValueError\<close> when the population has fewer than \<open>k\<close> elements.
  \<open>random.shuffle(x)\<close> leaves in \<open>x\<close> one of its orderings, each equally likely.
\<close>

definition random_sample :: "'a list \<Rightarrow> nat \<Rightarrow> 'a list outcomes" where
  "random_sample population k =
     (if length population < k then [Inl ValueError]
      else map (\<lambda>is. Inr (map ((!) population) is)) (index_choices k (length population) []))"

definition random_shuffle :: "'a list \<Rightarrow> 'a list outcomes" where
  "random_shuffle x = map (\<lambda>is. Inr (map ((!) x) is)) (index_choices (length x) (length x) [])"

section \<open>Multiple-choice question generation\<close>

text \<open>
  \<^verbatim>\<open>
  def generate_mcq_questions(text):
      sentences = text.split(". ")
      mcqs = []
      for sentence in sentences:
          if len(sentence.split()) > 5:
              correct_answer = sentence.strip()
              distractors = random.sample([s for s in sentences if s != sentence], 3)
              options = [correct_answer] + distractors
              random.shuffle(options)
              question = f"What is described by the following statement?\n'{sentence.strip()}'"
              option_labels = ['A', 'B', 'C', 'D']
              labeled_options = {option_labels[i]: options[i] for i in range(len(options))}
              mcqs.append((question, labeled_options, correct_answer))
      return mcqs
  \<close>
  The dictionary is an association list in insertion order; \<open>AList.update\<close> replaces the
  value of a key that is present and appends a new key, as a Python \<open>dict\<close> does. Reading
  \<open>option_labels[i]\<close> beyond the four labels raises \<open>IndexError\<close>.
\<close>

type_synonym mcq = "str \<times> (str \<times> str) list \<times> str"

definition option_labels :: "str list" where
  "option_labels = [lit ''A'', lit ''B'', lit ''C'', lit ''D'']"

fun label_loop :: "str list \<Rightarrow> nat list \<Rightarrow> (str \<times> str) list \<Rightarrow> exn + (str \<times> str) list" where
  "label_loop options [] labeled_options = Inr labeled_options"
| "label_loop options (i # rest) labeled_options =
     (if i < length option_labels
      then label_loop options rest
             (AList.update (option_labels ! i) (options ! i) labeled_options)
      else Inl IndexError)"

definition label_options :: "str list \<Rightarrow> exn + (str \<times> str) list" where
  "label_options options = label_loop options [0..<length options] []"

definition mcq_question :: "str \<Rightarrow> str" where
  "mcq_question sentence =
     lit ''What is described by the following statement?'' @ [10] @ [39] @
       str_strip sentence @ [39]"

fun mcq_loop :: "str list \<Rightarrow> str list \<Rightarrow> mcq list \<Rightarrow> mcq list outcomes" where
  "mcq_loop sentences [] mcqs = returns mcqs"
| "mcq_loop sentences (sentence # rest) mcqs =
     (if length (str_split_ws sentence) > 5
      then
        nd_bind (random_sample (filter (\<lambda>s. s \<noteq> sentence) sentences) 3) (\<lambda>distractors.
        nd_bind (random_shuffle (str_strip sentence # distractors)) (\<lambda>options.
        nd_bind (lift (label_options options)) (\<lambda>labeled_options.
          mcq_loop sentences rest
            (mcqs @ [(mcq_question sentence, labeled_options, str_strip sentence)]))))
      else mcq_loop sentences rest mcqs)"

definition generate_mcq_questions :: "str \<Rightarrow> mcq list outcomes" where
  "generate_mcq_questions text =
     (case str_split (lit ''. '') (-1) text of
        Inl e \<Rightarrow> [Inl e]
      | Inr sentences \<Rightarrow> mcq_loop sentences sentences [])"

text \<open>
  The fragments of a text, the fragments that qualify for a question, and the sampling
  population of a fragment, named for the statements below.
\<close>

definition fragments :: "str \<Rightarrow> str list" where
  "fragments text = split_aux (lit ''. '') (-1) [] text"

definition qualifies :: "str \<Rightarrow> bool" where
  "qualifies fragment \<longleftrightarrow> 5 < length (str_split_ws fragment)"

definition others :: "str list \<Rightarrow> str \<Rightarrow> str list" where
  "others sentences fragment = filter (\<lambda>s. s \<noteq> fragment) sentences"

text \<open>
  Multiple-choice generation in the words of the specification. Three distractors are
  picked from the other fragments uniformly at random without replacement: every ordered
  choice of three distinct positions is one equally likely outcome. The four options are
  shuffled: every ordering of the four positions is one equally likely outcome. The
  fragments are handled one after the other, and the first failure ends the run.
\<close>

definition spec_pick_three :: "'a list \<Rightarrow> 'a list list" where
  "spec_pick_three pop =
     [[pop ! i, pop ! j, pop ! k].
        i \<leftarrow> [0..<length pop], j \<leftarrow> [0..<length pop], k \<leftarrow> [0..<length pop],
        distinct [i, j, k]]"

definition spec_shuffle_four :: "'a list \<Rightarrow> 'a list list" where
  "spec_shuffle_four xs =
     [[xs ! a, xs ! b, xs ! c, xs ! d].
        a \<leftarrow> [0..<4], b \<leftarrow> [0..<4], c \<leftarrow> [0..<4], d \<leftarrow> [0..<4], distinct [a, b, c, d]]"

definition spec_mcq :: "str list \<Rightarrow> str \<Rightarrow> mcq outcomes" where
  "spec_mcq sentences fragment =
     (if length (others sentences fragment) < 3 then [Inl ValueError]
      else
        [Inr (mcq_question fragment,
              [(lit ''A'', opts ! 0), (lit ''B'', opts ! 1), (lit ''C'', opts ! 2),
               (lit ''D'', opts ! 3)],
              str_strip fragment).
           distractors \<leftarrow> spec_pick_three (others sentences fragment),
           opts \<leftarrow> spec_shuffle_four (str_strip fragment # distractors)])"

fun spec_in_order :: "'a outcomes list \<Rightarrow> 'a list outcomes" where
  "spec_in_order [] = returns []"
| "spec_in_order (m # ms) =
     nd_bind m (\<lambda>x. nd_bind (spec_in_order ms) (\<lambda>xs. returns (x # xs)))"

definition spec_mcq_questions :: "str list \<Rightarrow> mcq list outcomes" where
  "spec_mcq_questions sentences =
     spec_in_order (map (spec_mcq sentences) (filter qualifies sentences))"

text \<open>
  The positions of the elements of a list that satisfy a predicate, in increasing order.
\<close>

definition qualifying_positions :: "('a \<Rightarrow> bool) \<Rightarrow> 'a list \<Rightarrow> nat list" where
  "qualifying_positions P xs = filter (\<lambda>i. P (xs ! i)) [0..<length xs]"

section \<open>Flashcard generation and display\<close>

text \<open>
  \<^verbatim>\<open>
  flashcards = []
  flashcard_text_lines = flashcard_text.split('\n')
  for line in flashcard_text_lines:
      if ':' in line:
          term, definition = line.split(":", 1)
          flashcards.append(f"{term.strip()}: {definition.strip()}")
  if flashcards:
      st.success(...)
      for fc in flashcards:
          term, definition = fc.split(":", 1)
          st.markdown(f"**{term.strip()}**: {definition.strip()}")
  \<close>
  Code point 58 is the colon and 10 the line feed. Both loops unpack the result of
  \<open>split(":", 1)\<close> into two names, which raises \<open>ValueError\<close> unless the list has exactly two
  elements, and strip both; \<open>split_term_definition\<close> is that step.
\<close>

definition split_term_definition :: "str \<Rightarrow> exn + (str \<times> str)" where
  "split_term_definition s =
     (case str_split [58] 1 s of
        Inl e \<Rightarrow> Inl e
      | Inr [term, definition] \<Rightarrow> Inr (str_strip term, str_strip definition)
      | Inr _ \<Rightarrow> Inl ValueError)"

fun flashcard_loop :: "str list \<Rightarrow> str list \<Rightarrow> exn + str list" where
  "flashcard_loop [] flashcards = Inr flashcards"
| "flashcard_loop (line # rest) flashcards =
     (if 58 \<in> set line
      then (case split_term_definition line of
              Inl e \<Rightarrow> Inl e
            | Inr (term, definition) \<Rightarrow>
                flashcard_loop rest (flashcards @ [term @ lit '': '' @ definition]))
      else flashcard_loop rest flashcards)"

definition generate_flashcards :: "str \<Rightarrow> exn + str list" where
  "generate_flashcards flashcard_text =
     (case str_split [10] (-1) flashcard_text of
        Inl e \<Rightarrow> Inl e
      | Inr flashcard_text_lines \<Rightarrow> flashcard_loop flashcard_text_lines [])"

fun display_loop :: "str list \<Rightarrow> str list \<Rightarrow> exn + str list" where
  "display_loop [] shown = Inr shown"
| "display_loop (fc # rest) shown =
     (case split_term_definition fc of
        Inl e \<Rightarrow> Inl e
      | Inr (term, definition) \<Rightarrow>
          display_loop rest (shown @ [lit ''**'' @ term @ lit ''**: '' @ definition]))"

text \<open>
  The lines of a text, and the term and the definition of a line as the specification
  describes them: the text before the first colon and the text after it, both trimmed.
\<close>

definition text_lines :: "str \<Rightarrow> str list" where
  "text_lines flashcard_text = split_aux [10] (-1) [] flashcard_text"

definition spec_term :: "str \<Rightarrow> str" where
  "spec_term line = str_strip (takeWhile (\<lambda>c. c \<noteq> 58) line)"

definition spec_definition :: "str \<Rightarrow> str" where
  "spec_definition line = str_strip (tl (dropWhile (\<lambda>c. c \<noteq> 58) line))"

section \<open>The retry wrapper\<close>

text \<open>
  \<^verbatim>\<open>
  def hf_api_with_retries(url, headers, payload, retries=3, delay=5):
      for attempt in range(retries):
          try:
              response = requests.post(url, headers=headers, json=payload, timeout=60)
              response.raise_for_status()
              return response
          except requests.exceptions.RequestException as e:
              if attempt < retries - 1:
                  time.sleep(delay)
              else:
                  raise e
  \<close>
  The network is a function \<open>post\<close>: \<open>post k\<close> is what the call of attempt \<open>k\<close> yields,
  \<open>requests.post\<close> and \<open>raise_for_status\<close> taken together: a response, a
  \<open>RequestException\<close> (which the handler catches), or another exception (which it does
  not). The wrapper's effects are logged in order: a \<open>Post\<close> for every call made and a
  \<open>Sleep\<close> for every pause. \<open>time.sleep\<close> raises \<open>ValueError\<close> for a negative delay.
  A loop that ends without returning makes the function return \<open>None\<close>.
\<close>

datatype ('r, 'e) attempt = Response 'r | RequestException 'e | OtherException 'e

datatype event = Post | Sleep int

datatype 'e raised = RequestError 'e | OtherError 'e | SleepValueError

fun retry_loop ::
  "(nat \<Rightarrow> ('r, 'e) attempt) \<Rightarrow> int \<Rightarrow> int \<Rightarrow> int list \<Rightarrow> event list \<Rightarrow>
     event list \<times> ('e raised + 'r option)" where
  "retry_loop post retries delay [] log = (log, Inr None)"
| "retry_loop post retries delay (attempt # rest) log =
     (case post (nat attempt) of
        Response response \<Rightarrow> (log @ [Post], Inr (Some response))
      | RequestException e \<Rightarrow>
          (if attempt < retries - 1
           then (if delay < 0 then (log @ [Post], Inl SleepValueError)
                 else retry_loop post retries delay rest (log @ [Post, Sleep delay]))
           else (log @ [Post], Inl (RequestError e)))
      | OtherException e \<Rightarrow> (log @ [Post], Inl (OtherError e)))"

definition hf_api_with_retries ::
  "(nat \<Rightarrow> ('r, 'e) attempt) \<Rightarrow> int \<Rightarrow> int \<Rightarrow> event list \<times> ('e raised + 'r option)" where
  "hf_api_with_retries post retries delay = retry_loop post retries delay [0..retries - 1] []"

text \<open>A call that leaves \<open>retries\<close> and \<open>delay\<close> to their defaults, as the call site does.\<close>

definition hf_api_with_retries_default ::
  "(nat \<Rightarrow> ('r, 'e) attempt) \<Rightarrow> event list \<times> ('e raised + 'r option)" where
  "hf_api_with_retries_default post = hf_api_with_retries post 3 5"

text \<open>Two networks for the examples: one refuses the first two calls, one refuses every call.\<close>

definition refused_twice :: "nat \<Rightarrow> (nat, nat) attempt" where
  "refused_twice k = (if k < 2 then RequestException k else Response k)"

definition refused_always :: "nat \<Rightarrow> (nat, nat) attempt" where
  "refused_always k = RequestException k"

section \<open>Startup\<close>

text \<open>
  \<^verbatim>\<open>
  QA_KEY = os.getenv("HUGGINGFACE_QA_KEY")
  SUMMARIZE_KEY = os.getenv("HUGGINGFACE_SUMMARY_KEY")
  if not all([QA_KEY, SUMMARIZE_KEY]):
      st.error("... One or more API keys are missing. Check your .env file.")
      st.stop()
  qa_headers = {"Authorization": f"Bearer {QA_KEY}"}
  sum_headers = {"Authorization": f"Bearer {SUMMARIZE_KEY}"}
  ...
  st.set_page_config(...)
  st.title(...)
  st.markdown(...)
  option = st.sidebar.selectbox(...)
  \<close>
  The process environment, as it stands once \<open>load_dotenv()\<close> has added the entries of the
  \<open>.env\<close> file, is a map from names to values; \<open>os.getenv\<close> yields \<open>None\<close> for a name
  that is not set. \<open>all\<close> tests the truth value of each element: \<open>None\<close> and the
  empty string are false, every other string is true. The script's run up to the feature
  selection is the list of the Streamlit calls it makes; nothing follows \<open>st.stop()\<close>.
  The message starts with the code points U+26A0 and U+FE0F.
\<close>

datatype st_call =
  St_error str | St_stop | St_set_page_config | St_title | St_markdown | St_sidebar_selectbox

definition truthy :: "str option \<Rightarrow> bool" where
  "truthy v = (case v of None \<Rightarrow> False | Some s \<Rightarrow> s \<noteq> [])"

definition startup :: "(str \<Rightarrow> str option) \<Rightarrow> st_call list" where
  "startup environ =
     (let QA_KEY = environ (lit ''HUGGINGFACE_QA_KEY'');
          SUMMARIZE_KEY = environ (lit ''HUGGINGFACE_SUMMARY_KEY'')
      in if \<not> list_all truthy [QA_KEY, SUMMARIZE_KEY]
         then [St_error ([9888, 65039] @
                 lit '' One or more API keys are missing. Check your .env file.''),
               St_stop]
         else [St_set_page_config, St_title, St_markdown, St_sidebar_selectbox])"

text \<open>Whether a run renders the user interface, and whether it halts.\<close>

definition renders_ui :: "st_call list \<Rightarrow> bool" where
  "renders_ui calls \<longleftrightarrow>
     St_set_page_config \<in> set calls \<or> St_title \<in> set calls \<or> St_markdown \<in> set calls \<or>
     St_sidebar_selectbox \<in> set calls"

definition halts :: "st_call list \<Rightarrow> bool" where
  "halts calls \<longleftrightarrow> St_stop \<in> set calls"

text \<open>
  Three environments for the examples: one in which the first key is set to the empty
  string, one with both keys set, and one with no key set.
\<close>

definition empty_key_environ :: "str \<Rightarrow> str option" where
  "empty_key_environ =
     [lit ''HUGGINGFACE_QA_KEY'' \<mapsto> [], lit ''HUGGINGFACE_SUMMARY_KEY'' \<mapsto> lit ''hf_abc'']"

definition both_keys_environ :: "str \<Rightarrow> str option" where
  "both_keys_environ =
     [lit ''HUGGINGFACE_QA_KEY'' \<mapsto> lit ''hf_xyz'', lit ''HUGGINGFACE_SUMMARY_KEY'' \<mapsto> lit ''hf_abc'']"

definition no_keys_environ :: "str \<Rightarrow> str option" where
  "no_keys_environ = Map.empty"

section \<open>Facts about the string operations\<close>

lemma lit_sep_nonempty: "lit ''. '' \<noteq> []"
  by (simp add: lit_def)

lemma str_split_sentences: "str_split (lit ''. '') (-1) text = Inr (fragments text)"
  by (simp add: str_split_def fragments_def lit_sep_nonempty)

lemma split_aux_zero: "split_aux sep 0 cur s = [rev cur @ s]"
  by (induction s arbitrary: cur) simp_all

lemma split_aux_first:
  "c \<in> set s \<Longrightarrow>
   split_aux [c] 1 cur s = [rev cur @ takeWhile (\<lambda>x. x \<noteq> c) s, tl (dropWhile (\<lambda>x. x \<noteq> c) s)]"
  by (induction s arbitrary: cur) (auto simp: split_aux_zero)

lemma set_str_strip: "set (str_strip s) \<subseteq> set s"
  unfolding str_strip_def
  by (metis set_rev set_dropWhileD subsetI)

lemma hd_rstrip:
  assumes "rev (dropWhile P (rev u)) \<noteq> []"
  shows "hd (rev (dropWhile P (rev u))) = hd u"
proof -
  have "rev (dropWhile P (rev u)) @ rev (takeWhile P (rev u)) =
          rev (takeWhile P (rev u) @ dropWhile P (rev u))"
    by (simp only: rev_append)
  also have "\<dots> = u"
    by (simp only: takeWhile_dropWhile_id rev_rev_ident)
  finally have "hd u = hd (rev (dropWhile P (rev u)) @ rev (takeWhile P (rev u)))"
    by simp
  with assms show ?thesis
    by simp
qed

lemma dropWhile_str_strip: "dropWhile is_space (str_strip s) = str_strip s"
proof (cases "str_strip s = []")
  case True
  then show ?thesis by simp
next
  case False
  then have ne: "rev (dropWhile is_space (rev (dropWhile is_space s))) \<noteq> []"
    by (simp add: str_strip_def)
  have "dropWhile is_space s \<noteq> []"
  proof
    assume "dropWhile is_space s = []"
    with ne show False by simp
  qed
  then have "\<not> is_space (hd (dropWhile is_space s))"
    by (rule hd_dropWhile)
  with hd_rstrip [OF ne] have "\<not> is_space (hd (str_strip s))"
    by (simp add: str_strip_def)
  then show ?thesis
    by (simp add: dropWhile_eq_self_iff)
qed

lemma str_strip_idem: "str_strip (str_strip s) = str_strip s"
proof -
  have "str_strip (str_strip s) = rev (dropWhile is_space (rev (str_strip s)))"
    by (simp add: str_strip_def [of "str_strip s"] dropWhile_str_strip)
  also have "\<dots> = str_strip s"
    by (simp add: str_strip_def)
  finally show ?thesis .
qed

lemma str_strip_space_Cons: "is_space c \<Longrightarrow> str_strip (c # s) = str_strip s"
  by (simp add: str_strip_def)

lemma colon_not_space: "\<not> is_space 58"
  by (simp add: is_space_def)

lemma space_is_space: "is_space 32"
  by (simp add: is_space_def)

lemma lit_colon_space: "lit '': '' = [58, 32]"
  by (simp add: lit_def)

section \<open>Normal questions\<close>

lemma normal_loop_append:
  "normal_loop sentences questions =
     questions @ map (\<lambda>s. lit ''What is the meaning of '' @ [39] @ str_strip s @ lit ''?'' @ [39])
                   (filter qualifies sentences)"
  by (induction sentences arbitrary: questions) (simp_all add: qualifies_def)

text \<open>
  Claim C1, as amended. For every input text, \<open>generate_normal_questions\<close> splits the text
  on the literal delimiter \<open>". "\<close> and returns, for every fragment with more than five
  whitespace-separated tokens and in the order of the fragments, the question
  \<open>What is the meaning of '<fragment>?'\<close> in which the fragment is stripped of its leading
  and trailing whitespace. The output has exactly one question per qualifying fragment:
  nothing is deduplicated and the number of questions has no bound of its own.
\<close>

theorem normal_questions_stripped:
  "str_split (lit ''. '') (-1) text = Inr (fragments text) \<and>
   generate_normal_questions text =
     Inr (map (\<lambda>fragment. lit ''What is the meaning of '' @ [39] @ str_strip fragment @ lit ''?'' @ [39])
            (filter (\<lambda>fragment. 5 < length (str_split_ws fragment)) (fragments text))) \<and>
   (\<exists>questions. generate_normal_questions text = Inr questions \<and>
      length questions = length (filter (\<lambda>fragment. 5 < length (str_split_ws fragment)) (fragments text)))"
proof -
  have q: "qualifies = (\<lambda>fragment. 5 < length (str_split_ws fragment))"
    by (rule ext) (simp add: qualifies_def)
  have "generate_normal_questions text =
     Inr (map (\<lambda>fragment. lit ''What is the meaning of '' @ [39] @ str_strip fragment @ lit ''?'' @ [39])
            (filter (\<lambda>fragment. 5 < length (str_split_ws fragment)) (fragments text)))"
    by (simp add: generate_normal_questions_def str_split_sentences normal_loop_append q)
  then show ?thesis
    by (simp add: str_split_sentences)
qed

text \<open>
  The claim as the specification words it puts the fragment itself into the template. On
  a text with two spaces behind a full stop the second fragment starts with a space,
  which the code strips and the template of the specification keeps.
\<close>

theorem normal_questions_unstripped_counterexample:
  "fragments (lit ''a b c d e f.  g h i j k l'') = [lit ''a b c d e f'', lit '' g h i j k l''] \<and>
   generate_normal_questions (lit ''a b c d e f.  g h i j k l'') \<noteq>
     Inr (spec_normal_questions (fragments (lit ''a b c d e f.  g h i j k l'')))"
  by (simp add: generate_normal_questions_def spec_normal_questions_def fragments_def
      lit_def str_split_def str_split_ws_def str_strip_def is_space_def)

section \<open>Flashcards\<close>

lemma split_term_definition_colon:
  "58 \<in> set line \<Longrightarrow> split_term_definition line = Inr (spec_term line, spec_definition line)"
  by (simp add: split_term_definition_def str_split_def split_aux_first spec_term_def spec_definition_def)

lemma flashcard_loop_append:
  "flashcard_loop ls flashcards =
     Inr (flashcards @ map (\<lambda>line. spec_term line @ lit '': '' @ spec_definition line)
                         (filter (\<lambda>line. 58 \<in> set line) ls))"
  by (induction ls arbitrary: flashcards) (simp_all add: split_term_definition_colon)

lemma spec_term_no_colon: "58 \<notin> set (spec_term line)"
proof
  assume "58 \<in> set (spec_term line)"
  then have "58 \<in> set (takeWhile (\<lambda>c. c \<noteq> 58) line)"
    using set_str_strip by (auto simp: spec_term_def)
  then show False
    by (auto dest: set_takeWhileD)
qed

lemma spec_term_card:
  "spec_term (spec_term line @ lit '': '' @ spec_definition line) = spec_term line"
proof -
  have "takeWhile (\<lambda>c. c \<noteq> 58) (spec_term line @ 58 # 32 # spec_definition line) = spec_term line"
    using spec_term_no_colon [of line] by (subst takeWhile_append2) auto
  then show ?thesis
    by (simp add: lit_colon_space spec_term_def [of "_ @ _"] spec_term_def [of line, symmetric])
       (simp add: spec_term_def str_strip_idem)
qed

lemma spec_definition_card:
  "spec_definition (spec_term line @ lit '': '' @ spec_definition line) = spec_definition line"
proof -
  have "dropWhile (\<lambda>c. c \<noteq> 58) (spec_term line @ 58 # 32 # spec_definition line) =
          58 # 32 # spec_definition line"
    using spec_term_no_colon [of line] by (subst dropWhile_append2) auto
  then have "spec_definition (spec_term line @ lit '': '' @ spec_definition line) =
          str_strip (32 # spec_definition line)"
    by (simp add: lit_colon_space spec_definition_def [of "_ @ _"])
  also have "\<dots> = str_strip (spec_definition line)"
    by (simp add: str_strip_space_Cons space_is_space)
  also have "\<dots> = spec_definition line"
    by (simp add: spec_definition_def str_strip_idem)
  finally show ?thesis .
qed

text \<open>
  Claim C5. For every input text, flashcard generation splits the input into lines at the
  line feeds; a line yields a flashcard if and only if it contains a colon; the card of
  such a line is the text before its first colon and the text after its first colon, both
  stripped of surrounding whitespace, joined by \<open>": "\<close>; and the cards are exactly those of
  the qualifying lines, one each. No input makes the generation raise.
\<close>

theorem flashcards_spec:
  "str_split [10] (-1) flashcard_text = Inr (text_lines flashcard_text) \<and>
   generate_flashcards flashcard_text =
     Inr (map (\<lambda>line. str_strip (takeWhile (\<lambda>c. c \<noteq> 58) line) @ lit '': '' @
                        str_strip (tl (dropWhile (\<lambda>c. c \<noteq> 58) line)))
            (filter (\<lambda>line. 58 \<in> set line) (text_lines flashcard_text)))"
  by (simp add: generate_flashcards_def str_split_def text_lines_def flashcard_loop_append
      spec_term_def spec_definition_def)

text \<open>
  Claim C9. For every line that contains a colon, the generation loop stores the card
  \<open><term>: <definition>\<close> of the term and the definition it extracts from the line, and
  the term and the definition that the display loop reads back from the stored card (split
  at the first colon, both parts stripped) are that same pair, so that the card is shown
  as \<open>**<term>**: <definition>\<close> with the generated term and definition.
\<close>

theorem flashcard_round_trip:
  assumes "58 \<in> set line"
  shows "\<exists>term definition.
           split_term_definition line = Inr (term, definition) \<and>
           flashcard_loop [line] [] = Inr [term @ lit '': '' @ definition] \<and>
           split_term_definition (term @ lit '': '' @ definition) = Inr (term, definition) \<and>
           display_loop [term @ lit '': '' @ definition] [] =
             Inr [lit ''**'' @ term @ lit ''**: '' @ definition]"
proof -
  have "58 \<in> set (spec_term line @ lit '': '' @ spec_definition line)"
    by (simp add: lit_colon_space)
  then have rt: "split_term_definition (spec_term line @ lit '': '' @ spec_definition line) =
               Inr (spec_term line, spec_definition line)"
    by (simp add: split_term_definition_colon spec_term_card spec_definition_card)
  then have "display_loop [spec_term line @ lit '': '' @ spec_definition line] [] =
               Inr [lit ''**'' @ spec_term line @ lit ''**: '' @ spec_definition line]"
    by simp
  moreover have "flashcard_loop [line] [] = Inr [spec_term line @ lit '': '' @ spec_definition line]"
    by (simp add: flashcard_loop_append assms)
  ultimately show ?thesis
    using assms rt by (simp add: split_term_definition_colon)
qed

theorem flashcard_round_trip_witness:
  "58 \<in> set (lit '' CPU : central: unit '') \<and>
   split_term_definition (lit '' CPU : central: unit '') = Inr (lit ''CPU'', lit ''central: unit'') \<and>
   flashcard_loop [lit '' CPU : central: unit ''] [] = Inr [lit ''CPU: central: unit''] \<and>
   split_term_definition (lit ''CPU: central: unit'') = Inr (lit ''CPU'', lit ''central: unit'') \<and>
   display_loop [lit ''CPU: central: unit''] [] = Inr [lit ''**CPU**: central: unit'']"
proof -
  have h: "58 \<in> set (lit '' CPU : central: unit '')"
    by (simp add: lit_def)
  have e: "split_term_definition (lit '' CPU : central: unit '') = Inr (lit ''CPU'', lit ''central: unit'')"
    by (simp add: split_term_definition_def str_split_def str_strip_def is_space_def lit_def)
  have c: "lit ''CPU'' @ lit '': '' @ lit ''central: unit'' = lit ''CPU: central: unit''"
    "lit ''**'' @ lit ''CPU'' @ lit ''**: '' @ lit ''central: unit'' = lit ''**CPU**: central: unit''"
    by (simp_all add: lit_def)
  from flashcard_round_trip [OF h] e h show ?thesis
    unfolding c [symmetric] by auto
qed

section \<open>Outcome lists\<close>

lemma nd_bind_returns [simp]: "nd_bind (returns x) f = f x"
  by (simp add: nd_bind_def returns_def)

lemma nd_bind_raise [simp]: "nd_bind [Inl e] f = [Inl e]"
  by (simp add: nd_bind_def)

lemma nd_bind_lift_Inr [simp]: "nd_bind (lift (Inr x)) f = f x"
  by (simp add: nd_bind_def lift_def)

lemma nd_bind_Nil [simp]: "nd_bind [] f = []"
  by (simp add: nd_bind_def)

lemma nd_bind_Cons_Inr: "nd_bind (Inr x # m) f = f x @ nd_bind m f"
  by (simp add: nd_bind_def)

lemma nd_bind_Cons_Inl: "nd_bind (Inl e # m) f = Inl e # nd_bind m f"
  by (simp add: nd_bind_def)

lemma nd_bind_append: "nd_bind (m @ m') f = nd_bind m f @ nd_bind m' f"
  by (simp add: nd_bind_def)

lemma nd_bind_assoc: "nd_bind (nd_bind m f) g = nd_bind m (\<lambda>x. nd_bind (f x) g)"
proof (induction m)
  case Nil
  show ?case by simp
next
  case (Cons r m)
  then show ?case
    by (cases r) (simp_all add: nd_bind_Cons_Inr nd_bind_Cons_Inl nd_bind_append)
qed

lemma nd_bind_returns_right: "nd_bind m returns = m"
proof (induction m)
  case Nil
  show ?case by simp
next
  case (Cons r m)
  then show ?case
    by (cases r) (simp_all add: nd_bind_Cons_Inr nd_bind_Cons_Inl returns_def)
qed

lemma nd_bind_map_Inr: "nd_bind (map (\<lambda>x. Inr (g x)) xs) f = concat (map (\<lambda>x. f (g x)) xs)"
  by (simp add: nd_bind_def comp_def)

lemma nd_bind_cong:
  assumes "\<And>x. Inr x \<in> set m \<Longrightarrow> f x = g x"
  shows "nd_bind m f = nd_bind m g"
  using assms
proof (induction m)
  case Nil
  show ?case by simp
next
  case (Cons r m)
  then show ?case
    by (cases r) (simp_all add: nd_bind_Cons_Inr nd_bind_Cons_Inl)
qed

lemma set_nd_bind:
  "set (nd_bind m f) = {Inl e |e. Inl e \<in> set m} \<union> (\<Union>x\<in>{x. Inr x \<in> set m}. set (f x))"
proof (induction m)
  case Nil
  show ?case by simp
next
  case (Cons r m)
  then show ?case
    by (cases r) (auto simp: nd_bind_Cons_Inr nd_bind_Cons_Inl)
qed

lemma Inr_in_nd_bind_returns:
  "Inr y \<in> set (nd_bind m (\<lambda>x. returns (g x))) \<longleftrightarrow> (\<exists>x. Inr x \<in> set m \<and> y = g x)"
  by (auto simp: set_nd_bind returns_def)

section \<open>Sampling, shuffling and labelling\<close>

lemma concat_map_filter_if:
  "concat (map f (filter P xs)) = concat (map (\<lambda>x. if P x then f x else []) xs)"
  by (induction xs) simp_all

lemma concat_map_Nil: "concat (map (\<lambda>x. []) xs) = []"
  by (induction xs) simp_all

lemma pick_inner:
  "map (\<lambda>ks. pop ! i # map ((!) pop) ks)
     (if j \<noteq> i then map (\<lambda>k. [j, k]) (filter (\<lambda>k. k \<noteq> j \<and> k \<noteq> i) xs) else []) =
   concat (map (\<lambda>k. if i \<noteq> j \<and> i \<noteq> k \<and> j \<noteq> k then [[pop ! i, pop ! j, pop ! k]] else []) xs)"
  by (induction xs) auto

lemma index_choices_three:
  "map (map ((!) pop)) (index_choices 3 n []) =
     [[pop ! i, pop ! j, pop ! k]. i \<leftarrow> [0..<n], j \<leftarrow> [0..<n], k \<leftarrow> [0..<n], distinct [i, j, k]]"
proof -
  have "index_choices 3 n [] = index_choices (Suc (Suc (Suc 0))) n []"
    by (simp add: numeral_3_eq_3)
  then show ?thesis
    by (simp add: concat_map_filter_if map_concat comp_def pick_inner)
qed

lemma random_sample_three:
  assumes "3 \<le> length pop"
  shows "random_sample pop 3 = map Inr (spec_pick_three pop)"
proof -
  have "random_sample pop 3 = map Inr (map (map ((!) pop)) (index_choices 3 (length pop) []))"
    using assms by (simp add: random_sample_def comp_def)
  also have "\<dots> = map Inr (spec_pick_three pop)"
    by (simp only: index_choices_three spec_pick_three_def)
  finally show ?thesis .
qed

lemma random_sample_short:
  "length pop < 3 \<Longrightarrow> random_sample pop 3 = [Inl ValueError]"
  by (simp add: random_sample_def)

lemma spec_shuffle_four_list:
  "spec_shuffle_four [w, x, y, z] =
     [[w, x, y, z], [w, x, z, y], [w, y, x, z], [w, y, z, x],
      [w, z, x, y], [w, z, y, x], [x, w, y, z], [x, w, z, y],
      [x, y, w, z], [x, y, z, w], [x, z, w, y], [x, z, y, w],
      [y, w, x, z], [y, w, z, x], [y, x, w, z], [y, x, z, w],
      [y, z, w, x], [y, z, x, w], [z, w, x, y], [z, w, y, x],
      [z, x, w, y], [z, x, y, w], [z, y, w, x], [z, y, x, w]]"
  by (simp add: spec_shuffle_four_def upt_rec)

lemma random_shuffle_four:
  "random_shuffle [w, x, y, z] = map Inr (spec_shuffle_four [w, x, y, z])"
  unfolding spec_shuffle_four_list by (simp add: random_shuffle_def)

lemma spec_pick_three_length:
  "ds \<in> set (spec_pick_three pop) \<Longrightarrow> \<exists>x y z. ds = [x, y, z]"
  by (auto simp: spec_pick_three_def split: if_splits)

lemma label_options_four:
  "label_options [w, x, y, z] =
     Inr [(lit ''A'', w), (lit ''B'', x), (lit ''C'', y), (lit ''D'', z)]"
  by (simp add: label_options_def option_labels_def lit_def upt_rec)

lemma concat_concat_map: "concat (concat xss) = concat (map concat xss)"
  by (induction xss) simp_all

lemma nd_bind_map_Inr_id: "nd_bind (map Inr xs) f = concat (map f xs)"
  by (simp add: nd_bind_def comp_def)

lemma spec_shuffle_four_length:
  "opts \<in> set (spec_shuffle_four [w, x, y, z]) \<Longrightarrow> length opts = 4"
  unfolding spec_shuffle_four_list by auto

lemma label_options_length_four:
  assumes "length opts = 4"
  shows "label_options opts =
           Inr [(lit ''A'', opts ! 0), (lit ''B'', opts ! 1), (lit ''C'', opts ! 2),
                (lit ''D'', opts ! 3)]"
proof -
  from assms obtain w x y z where "opts = [w, x, y, z]"
    by (auto simp: length_Suc_conv numeral_eq_Suc)
  then show ?thesis
    by (simp add: label_options_four)
qed

lemma spec_pick_three_iff:
  "ds \<in> set (spec_pick_three pop) \<longleftrightarrow>
     (\<exists>i j k. i < length pop \<and> j < length pop \<and> k < length pop \<and> distinct [i, j, k] \<and>
        ds = [pop ! i, pop ! j, pop ! k])"
proof
  assume "ds \<in> set (spec_pick_three pop)"
  then obtain i j k where "i < length pop" "j < length pop" "k < length pop"
      "i \<noteq> j" "i \<noteq> k" "j \<noteq> k" "ds = [pop ! i, pop ! j, pop ! k]"
    by (auto simp: spec_pick_three_def split: if_splits)
  then show "\<exists>i j k. i < length pop \<and> j < length pop \<and> k < length pop \<and> distinct [i, j, k] \<and>
        ds = [pop ! i, pop ! j, pop ! k]"
    by (intro exI [of _ i] exI [of _ j] exI [of _ k]) simp
next
  assume "\<exists>i j k. i < length pop \<and> j < length pop \<and> k < length pop \<and> distinct [i, j, k] \<and>
        ds = [pop ! i, pop ! j, pop ! k]"
  then obtain i j k where "i < length pop" "j < length pop" "k < length pop"
      "i \<noteq> j" "i \<noteq> k" "j \<noteq> k" "ds = [pop ! i, pop ! j, pop ! k]"
    by auto
  then show "ds \<in> set (spec_pick_three pop)"
    unfolding spec_pick_three_def
    by simp
      (rule bexI [of _ i], rule conjI [OF refl], rule bexI [of _ j], rule conjI [OF refl],
        rule bexI [of _ k], simp_all)
qed

lemma spec_pick_three_nonempty:
  assumes "3 \<le> length pop"
  shows "spec_pick_three pop \<noteq> []"
proof -
  have "0 < length pop \<and> 1 < length pop \<and> 2 < length pop \<and> distinct [0, 1, 2 :: nat] \<and>
        [pop ! 0, pop ! 1, pop ! 2] = [pop ! 0, pop ! 1, pop ! 2]"
    using assms by auto
  then have "[pop ! 0, pop ! 1, pop ! 2] \<in> set (spec_pick_three pop)"
    unfolding spec_pick_three_iff by blast
  then show ?thesis
    by auto
qed

lemma spec_shuffle_four_mset:
  "opts \<in> set (spec_shuffle_four [w, x, y, z]) \<Longrightarrow> mset opts = mset [w, x, y, z]"
  unfolding spec_shuffle_four_list by auto

section \<open>Multiple-choice questions\<close>

lemma mcq_after_shuffle:
  assumes "ds \<in> set (spec_pick_three pop)"
  shows "nd_bind (random_shuffle (a # ds)) (\<lambda>opts.
           nd_bind (lift (label_options opts)) (\<lambda>labeled. K (q, labeled, a))) =
         concat (map (\<lambda>opts. K (q, [(lit ''A'', opts ! 0), (lit ''B'', opts ! 1),
                                   (lit ''C'', opts ! 2), (lit ''D'', opts ! 3)], a))
                   (spec_shuffle_four (a # ds)))"
proof -
  from assms obtain x y z where ds: "ds = [x, y, z]"
    using spec_pick_three_length by blast
  have "nd_bind (lift (label_options opts)) (\<lambda>labeled. K (q, labeled, a)) =
          K (q, [(lit ''A'', opts ! 0), (lit ''B'', opts ! 1), (lit ''C'', opts ! 2),
                 (lit ''D'', opts ! 3)], a)"
    if "opts \<in> set (spec_shuffle_four [a, x, y, z])" for opts
    using spec_shuffle_four_length [OF that] by (simp add: label_options_length_four)
  then show ?thesis
    unfolding ds random_shuffle_four nd_bind_map_Inr_id
    by (intro arg_cong [where f = concat] map_cong refl)
qed

lemma mcq_step:
  "nd_bind (random_sample (filter (\<lambda>s. s \<noteq> sentence) sentences) 3) (\<lambda>distractors.
     nd_bind (random_shuffle (str_strip sentence # distractors)) (\<lambda>opts.
       nd_bind (lift (label_options opts)) (\<lambda>labeled.
         K (mcq_question sentence, labeled, str_strip sentence)))) =
   nd_bind (spec_mcq sentences sentence) K"
proof (cases "length (others sentences sentence) < 3")
  case True
  then show ?thesis
    by (simp add: spec_mcq_def random_sample_short flip: others_def)
next
  case False
  then have three: "3 \<le> length (others sentences sentence)"
    by simp
  have "nd_bind (random_sample (others sentences sentence) 3) (\<lambda>distractors.
     nd_bind (random_shuffle (str_strip sentence # distractors)) (\<lambda>opts.
       nd_bind (lift (label_options opts)) (\<lambda>labeled.
         K (mcq_question sentence, labeled, str_strip sentence)))) =
     concat (map (\<lambda>ds. concat (map (\<lambda>opts. K (mcq_question sentence,
         [(lit ''A'', opts ! 0), (lit ''B'', opts ! 1), (lit ''C'', opts ! 2),
          (lit ''D'', opts ! 3)], str_strip sentence))
                   (spec_shuffle_four (str_strip sentence # ds))))
        (spec_pick_three (others sentences sentence)))"
    unfolding random_sample_three [OF three] nd_bind_map_Inr_id
    by (intro arg_cong [where f = concat] map_cong refl mcq_after_shuffle)
  moreover have "nd_bind (spec_mcq sentences sentence) K =
     concat (map (\<lambda>ds. concat (map (\<lambda>opts. K (mcq_question sentence,
         [(lit ''A'', opts ! 0), (lit ''B'', opts ! 1), (lit ''C'', opts ! 2),
          (lit ''D'', opts ! 3)], str_strip sentence))
                   (spec_shuffle_four (str_strip sentence # ds))))
        (spec_pick_three (others sentences sentence)))"
    using False by (simp add: spec_mcq_def nd_bind_def map_concat comp_def concat_concat_map)
  ultimately show ?thesis
    by (simp add: others_def)
qed

lemma mcq_loop_spec:
  "mcq_loop sentences rest mcqs =
     nd_bind (spec_in_order (map (spec_mcq sentences) (filter qualifies rest)))
       (\<lambda>ms. returns (mcqs @ ms))"
proof (induction rest arbitrary: mcqs)
  case Nil
  show ?case by simp
next
  case (Cons sentence rest)
  show ?case
  proof (cases "qualifies sentence")
    case False
    then show ?thesis
      using Cons.IH by (simp add: qualifies_def)
  next
    case True
    have "mcq_loop sentences (sentence # rest) mcqs =
            nd_bind (spec_mcq sentences sentence) (\<lambda>m. mcq_loop sentences rest (mcqs @ [m]))"
      using True
      mcq_step [of sentence sentences "\<lambda>m. mcq_loop sentences rest (mcqs @ [m])"]
      by (simp add: qualifies_def)
    also have "\<dots> = nd_bind (spec_mcq sentences sentence) (\<lambda>m.
            nd_bind (spec_in_order (map (spec_mcq sentences) (filter qualifies rest)))
              (\<lambda>ms. returns (mcqs @ m # ms)))"
      by (simp add: Cons.IH)
    also have "\<dots> =
            nd_bind (spec_in_order (map (spec_mcq sentences) (filter qualifies (sentence # rest))))
              (\<lambda>ms. returns (mcqs @ ms))"
      using True by (simp add: nd_bind_assoc)
    finally show ?thesis .
  qed
qed

text \<open>
  Claim C2. For every input text, \<open>generate_mcq_questions\<close> splits the text on \<open>". "\<close> and
  keeps the fragments with more than five whitespace-separated tokens, as normal question
  generation does. For each of them, in order, it picks three of the other fragments (the
  fragments of the split that differ from it) uniformly at random without replacement,
  shuffles the four options (the stripped fragment, which is the correct answer, and the
  three distractors), labels them A, B, C and D, and emits one tuple of question, labelled
  options and correct answer. The list of equally likely outcomes of the code is the list
  that \<open>spec_mcq_questions\<close> builds in these words; there the pick is every ordered choice
  of three distinct positions once, the shuffle every ordering of four positions once, and
  a fragment with fewer than three other fragments makes the pick fail (claim C3).
\<close>

theorem generate_mcq_questions_spec:
  "str_split (lit ''. '') (-1) text = Inr (fragments text) \<and>
   generate_mcq_questions text = spec_mcq_questions (fragments text)"
proof -
  have s: "str_split (lit ''. '') (-1) text = Inr (fragments text)"
    by (simp add: str_split_def fragments_def lit_def)
  then have "generate_mcq_questions text =
               nd_bind (spec_mcq_questions (fragments text)) (\<lambda>ms. returns ([] @ ms))"
    by (simp only: generate_mcq_questions_def sum.case mcq_loop_spec spec_mcq_questions_def)
  also have "\<dots> = nd_bind (spec_mcq_questions (fragments text)) returns"
    by simp
  finally show ?thesis
    using s by (simp add: nd_bind_returns_right)
qed

lemma spec_in_order_Inr:
  "Inr ms \<in> set (spec_in_order L) \<longleftrightarrow> list_all2 (\<lambda>m x. Inr x \<in> set m) L ms"
proof (induction L arbitrary: ms)
  case Nil
  show ?case by (auto simp: returns_def)
next
  case (Cons m L)
  show ?case
    by (auto simp: set_nd_bind Cons.IH returns_def list_all2_Cons1)
qed

lemma spec_mcq_Inr:
  "Inr m \<in> set (spec_mcq sentences fragment) \<longleftrightarrow>
     3 \<le> length (others sentences fragment) \<and>
     (\<exists>ds opts. ds \<in> set (spec_pick_three (others sentences fragment)) \<and>
        opts \<in> set (spec_shuffle_four (str_strip fragment # ds)) \<and>
        m = (mcq_question fragment,
             [(lit ''A'', opts ! 0), (lit ''B'', opts ! 1), (lit ''C'', opts ! 2),
              (lit ''D'', opts ! 3)],
             str_strip fragment))"
  by (auto simp: spec_mcq_def)

lemma generate_mcq_unfold:
  "generate_mcq_questions text =
     spec_in_order (map (spec_mcq (fragments text)) (filter qualifies (fragments text)))"
proof -
  have "generate_mcq_questions text =
          nd_bind (spec_in_order (map (spec_mcq (fragments text)) (filter qualifies (fragments text))))
            (\<lambda>ms. returns ([] @ ms))"
    by (simp only: generate_mcq_questions_def str_split_sentences sum.case mcq_loop_spec)
  also have "\<dots> = nd_bind (spec_in_order (map (spec_mcq (fragments text))
                              (filter qualifies (fragments text)))) returns"
    by simp
  finally show ?thesis
    by (simp add: nd_bind_returns_right)
qed

lemma generate_mcq_Inr:
  "Inr mcqs \<in> set (generate_mcq_questions text) \<longleftrightarrow>
     list_all2 (\<lambda>fragment m. Inr m \<in> set (spec_mcq (fragments text) fragment))
       (filter qualifies (fragments text)) mcqs"
  by (simp add: generate_mcq_unfold spec_in_order_Inr list_all2_map1)

lemma spec_mcq_short:
  "length (others sentences fragment) < 3 \<Longrightarrow> spec_mcq sentences fragment = [Inl ValueError]"
  by (simp add: spec_mcq_def)

lemma spec_mcq_enough:
  assumes "3 \<le> length (others sentences fragment)"
  shows "(\<exists>m. Inr m \<in> set (spec_mcq sentences fragment)) \<and>
         (\<forall>r\<in>set (spec_mcq sentences fragment). \<exists>m. r = Inr m)"
proof -
  obtain ds where ds: "ds \<in> set (spec_pick_three (others sentences fragment))"
    using spec_pick_three_nonempty [OF assms] by (cases "spec_pick_three (others sentences fragment)") auto
  then obtain x y z where "ds = [x, y, z]"
    using spec_pick_three_length by blast
  then have "[str_strip fragment, x, y, z] \<in> set (spec_shuffle_four (str_strip fragment # ds))"
    by (simp add: spec_shuffle_four_list)
  with ds assms have "\<exists>m. Inr m \<in> set (spec_mcq sentences fragment)"
    unfolding spec_mcq_Inr by blast
  moreover have "\<forall>r\<in>set (spec_mcq sentences fragment). \<exists>m. r = Inr m"
    using assms by (auto simp: spec_mcq_def)
  ultimately show ?thesis ..
qed

lemma spec_in_order_raises:
  assumes "\<forall>f\<in>set fs. length (others sentences f) < 3 \<or> 3 \<le> length (others sentences f)"
    and "\<exists>f\<in>set fs. length (others sentences f) < 3"
  shows "set (spec_in_order (map (spec_mcq sentences) fs)) = {Inl ValueError}"
  using assms(2)
proof (induction fs)
  case Nil
  then show ?case by simp
next
  case (Cons f fs)
  show ?case
  proof (cases "length (others sentences f) < 3")
    case True
    then show ?thesis
      by (simp add: spec_mcq_short)
  next
    case False
    then have "3 \<le> length (others sentences f)"
      by simp
    from spec_mcq_enough [OF this] obtain m where
      m: "Inr m \<in> set (spec_mcq sentences f)" and
      all: "\<forall>r\<in>set (spec_mcq sentences f). \<exists>m. r = Inr m"
      by blast
    from False Cons.prems have "\<exists>f\<in>set fs. length (others sentences f) < 3"
      by simp
    then have ih: "set (spec_in_order (map (spec_mcq sentences) fs)) = {Inl ValueError}"
      by (rule Cons.IH)
    have inner: "set (nd_bind (spec_in_order (map (spec_mcq sentences) fs)) (\<lambda>xs. returns (x # xs))) =
            {Inl ValueError}" for x
      by (auto simp: set_nd_bind ih)
    have "spec_in_order (map (spec_mcq sentences) (f # fs)) =
            nd_bind (spec_mcq sentences f) (\<lambda>x.
              nd_bind (spec_in_order (map (spec_mcq sentences) fs)) (\<lambda>xs. returns (x # xs)))"
      by simp
    then have "set (spec_in_order (map (spec_mcq sentences) (f # fs))) =
            {Inl e |e. Inl e \<in> set (spec_mcq sentences f)} \<union>
            (\<Union>x\<in>{x. Inr x \<in> set (spec_mcq sentences f)}. {Inl ValueError})"
      by (simp only: set_nd_bind [of "spec_mcq sentences f"] inner)
    also have "\<dots> = {Inl ValueError}"
      using m all by auto
    finally show ?thesis .
  qed
qed

lemma generate_mcq_raises:
  assumes "fragment \<in> set (fragments text)" and "qualifies fragment"
    and "length (others (fragments text) fragment) < 3"
  shows "set (generate_mcq_questions text) = {Inl ValueError}"
  unfolding generate_mcq_unfold
  using assms by (intro spec_in_order_raises) auto

text \<open>
  Claim C3. \<open>generate_mcq_questions\<close> raises if some fragment with more than five
  whitespace-separated tokens has fewer than three other fragments in the split input to
  sample the distractors from: every outcome of the call is then the raised \<open>ValueError\<close>,
  and there is no other outcome. In particular the call raises for every input whose split
  holds a qualifying fragment and fewer than four fragments in total.
\<close>

theorem generate_mcq_questions_raises:
  "((\<exists>fragment\<in>set (fragments text).
       5 < length (str_split_ws fragment) \<and>
       length (filter (\<lambda>s. s \<noteq> fragment) (fragments text)) < 3) \<longrightarrow>
     set (generate_mcq_questions text) = {Inl ValueError}) \<and>
   ((\<exists>fragment\<in>set (fragments text). 5 < length (str_split_ws fragment)) \<and>
     length (fragments text) < 4 \<longrightarrow>
     set (generate_mcq_questions text) = {Inl ValueError})"
proof (intro conjI impI)
  assume "\<exists>fragment\<in>set (fragments text).
       5 < length (str_split_ws fragment) \<and>
       length (filter (\<lambda>s. s \<noteq> fragment) (fragments text)) < 3"
  then obtain fragment where "fragment \<in> set (fragments text)" "qualifies fragment"
      "length (others (fragments text) fragment) < 3"
    by (auto simp: qualifies_def others_def)
  then show "set (generate_mcq_questions text) = {Inl ValueError}"
    by (rule generate_mcq_raises)
next
  assume a: "(\<exists>fragment\<in>set (fragments text). 5 < length (str_split_ws fragment)) \<and>
     length (fragments text) < 4"
  then obtain fragment where f: "fragment \<in> set (fragments text)" "qualifies fragment"
    by (auto simp: qualifies_def)
  have "length (filter (\<lambda>s. s \<noteq> fragment) (fragments text)) < length (fragments text)"
    using f(1) by (intro length_filter_less [of fragment]) auto
  with a have "length (others (fragments text) fragment) < 3"
    by (simp add: others_def)
  with f show "set (generate_mcq_questions text) = {Inl ValueError}"
    by (rule generate_mcq_raises)
qed

lemma fragments_short_text:
  "fragments (lit ''a b c d e f. x. y'') = [lit ''a b c d e f'', lit ''x'', lit ''y'']"
  by (simp add: fragments_def lit_def)

lemma fragments_same_four:
  "fragments (lit ''a b c d e f. a b c d e f. a b c d e f. a b c d e f'') =
     [lit ''a b c d e f'', lit ''a b c d e f'', lit ''a b c d e f'', lit ''a b c d e f'']"
  by (simp add: fragments_def lit_def)

theorem generate_mcq_questions_raises_witness:
  "lit ''a b c d e f'' \<in> set (fragments (lit ''a b c d e f. x. y'')) \<and>
   5 < length (str_split_ws (lit ''a b c d e f'')) \<and>
   length (fragments (lit ''a b c d e f. x. y'')) < 4 \<and>
   set (generate_mcq_questions (lit ''a b c d e f. x. y'')) = {Inl ValueError} \<and>
   length (fragments (lit ''a b c d e f. a b c d e f. a b c d e f. a b c d e f'')) = 4 \<and>
   set (generate_mcq_questions (lit ''a b c d e f. a b c d e f. a b c d e f. a b c d e f'')) =
     {Inl ValueError}"
proof -
  have q: "5 < length (str_split_ws (lit ''a b c d e f''))"
    by (simp add: str_split_ws_def lit_def is_space_def)
  have h: "(\<exists>fragment\<in>set (fragments (lit ''a b c d e f. x. y'')). 5 < length (str_split_ws fragment)) \<and>
     length (fragments (lit ''a b c d e f. x. y'')) < 4"
    using q by (simp add: fragments_short_text)
  have g: "\<exists>fragment\<in>set (fragments (lit ''a b c d e f. a b c d e f. a b c d e f. a b c d e f'')).
       5 < length (str_split_ws fragment) \<and>
       length (filter (\<lambda>s. s \<noteq> fragment)
         (fragments (lit ''a b c d e f. a b c d e f. a b c d e f. a b c d e f''))) < 3"
    using q by (simp add: fragments_same_four)
  from generate_mcq_questions_raises [of "lit ''a b c d e f. x. y''", THEN conjunct2, THEN mp, OF h]
    generate_mcq_questions_raises
      [of "lit ''a b c d e f. a b c d e f. a b c d e f. a b c d e f''", THEN conjunct1, THEN mp, OF g]
    q
  show ?thesis
    by (simp add: fragments_short_text fragments_same_four)
qed

lemma spec_mcq_shape:
  assumes "Inr m \<in> set (spec_mcq sentences fragment)"
  shows "\<exists>ds a b c d.
           ds \<in> set (spec_pick_three (others sentences fragment)) \<and>
           mset [a, b, c, d] = mset (str_strip fragment # ds) \<and>
           m = (mcq_question fragment,
                [(lit ''A'', a), (lit ''B'', b), (lit ''C'', c), (lit ''D'', d)],
                str_strip fragment)"
proof -
  from assms obtain ds opts where
    ds: "ds \<in> set (spec_pick_three (others sentences fragment))" and
    opts: "opts \<in> set (spec_shuffle_four (str_strip fragment # ds))" and
    m: "m = (mcq_question fragment,
             [(lit ''A'', opts ! 0), (lit ''B'', opts ! 1), (lit ''C'', opts ! 2),
              (lit ''D'', opts ! 3)],
             str_strip fragment)"
    unfolding spec_mcq_Inr by blast
  from ds obtain x y z where xyz: "ds = [x, y, z]"
    using spec_pick_three_length by blast
  from opts have len: "length opts = 4" and ms: "mset opts = mset (str_strip fragment # ds)"
    unfolding xyz by (rule spec_shuffle_four_length, rule spec_shuffle_four_mset)
  from len obtain a b c d where abcd: "opts = [a, b, c, d]"
    by (auto simp: length_Suc_conv numeral_eq_Suc)
  show ?thesis
    using ds ms m unfolding abcd
    by (intro exI [of _ ds] exI [of _ a] exI [of _ b] exI [of _ c] exI [of _ d]) simp
qed

lemma list_all2_member:
  "list_all2 P xs ys \<Longrightarrow> y \<in> set ys \<Longrightarrow> \<exists>x\<in>set xs. P x y"
  by (induction rule: list_all2_induct) auto

lemma mcq_of_outcome:
  assumes "Inr mcqs \<in> set (generate_mcq_questions text)" and "m \<in> set mcqs"
  shows "\<exists>fragment\<in>set (fragments text).
           qualifies fragment \<and> Inr m \<in> set (spec_mcq (fragments text) fragment)"
proof -
  from assms(1) have "list_all2 (\<lambda>fragment m. Inr m \<in> set (spec_mcq (fragments text) fragment))
       (filter qualifies (fragments text)) mcqs"
    by (simp only: generate_mcq_Inr)
  from list_all2_member [OF this assms(2)] show ?thesis
    by auto
qed

lemma labels_lit:
  "[lit ''A'', lit ''B'', lit ''C'', lit ''D''] = [[65], [66], [67], [68]]"
  by (simp add: lit_def)

lemma fragments_example:
  "fragments (lit ''a b c d e f. x. y. z'') = [lit ''a b c d e f'', lit ''x'', lit ''y'', lit ''z'']"
  by (simp add: fragments_def lit_def)

lemma qualifies_example:
  "qualifies (lit ''a b c d e f'')" "\<not> qualifies (lit ''x'')" "\<not> qualifies (lit ''y'')"
  "\<not> qualifies (lit ''z'')"
  by (simp_all add: qualifies_def str_split_ws_def lit_def is_space_def)

lemma example_outcome:
  "Inr [(mcq_question (lit ''a b c d e f''),
         [(lit ''A'', lit ''x''), (lit ''B'', lit ''a b c d e f''), (lit ''C'', lit ''z''),
          (lit ''D'', lit ''y'')],
         lit ''a b c d e f'')]
     \<in> set (generate_mcq_questions (lit ''a b c d e f. x. y. z''))"
proof -
  have o: "others [lit ''a b c d e f'', lit ''x'', lit ''y'', lit ''z''] (lit ''a b c d e f'') =
             [lit ''x'', lit ''y'', lit ''z'']"
    by (simp add: others_def lit_def)
  have s: "str_strip (lit ''a b c d e f'') = lit ''a b c d e f''"
    by (simp add: str_strip_def lit_def is_space_def)
  have p: "[lit ''x'', lit ''y'', lit ''z''] \<in> set (spec_pick_three [lit ''x'', lit ''y'', lit ''z''])"
    unfolding spec_pick_three_iff
    by (intro exI [of _ 0] exI [of _ "Suc 0"] exI [of _ 2]) simp
  have f: "[lit ''x'', lit ''a b c d e f'', lit ''z'', lit ''y''] \<in>
             set (spec_shuffle_four [lit ''a b c d e f'', lit ''x'', lit ''y'', lit ''z''])"
    unfolding spec_shuffle_four_list by simp
  have "Inr (mcq_question (lit ''a b c d e f''),
         [(lit ''A'', lit ''x''), (lit ''B'', lit ''a b c d e f''), (lit ''C'', lit ''z''),
          (lit ''D'', lit ''y'')],
         lit ''a b c d e f'')
     \<in> set (spec_mcq [lit ''a b c d e f'', lit ''x'', lit ''y'', lit ''z''] (lit ''a b c d e f''))"
    unfolding spec_mcq_Inr o s
    using p f
    by (intro conjI exI [of _ "[lit ''x'', lit ''y'', lit ''z'']"]
        exI [of _ "[lit ''x'', lit ''a b c d e f'', lit ''z'', lit ''y'']"]) simp_all
  then show ?thesis
    by (simp add: generate_mcq_Inr fragments_example qualifies_example)
qed

text \<open>
  Claim C10. For every input on which \<open>generate_mcq_questions\<close> returns, the labelled
  options of every emitted tuple have exactly four entries, with the labels A, B, C and D
  in this order, and the tuple's correct answer is the value of at least one of them.
\<close>

theorem mcq_labels_and_answer:
  assumes "Inr mcqs \<in> set (generate_mcq_questions text)"
    and "(question, labeled_options, correct_answer) \<in> set mcqs"
  shows "map fst labeled_options = [lit ''A'', lit ''B'', lit ''C'', lit ''D''] \<and>
         length labeled_options = 4 \<and>
         distinct (map fst labeled_options) \<and>
         correct_answer \<in> snd ` set labeled_options"
proof -
  from mcq_of_outcome [OF assms] obtain fragment where
    "Inr (question, labeled_options, correct_answer) \<in> set (spec_mcq (fragments text) fragment)"
    by blast
  from spec_mcq_shape [OF this] obtain ds a b c d where
    ms: "mset [a, b, c, d] = mset (str_strip fragment # ds)" and
    lo: "labeled_options = [(lit ''A'', a), (lit ''B'', b), (lit ''C'', c), (lit ''D'', d)]" and
    ca: "correct_answer = str_strip fragment"
    by auto
  from ms have "set [a, b, c, d] = set (str_strip fragment # ds)"
    by (rule mset_eq_setD)
  then have "correct_answer \<in> {a, b, c, d}"
    unfolding ca by auto
  then have "correct_answer \<in> snd ` set labeled_options"
    unfolding lo by auto
  moreover have "distinct (map fst labeled_options)"
    unfolding lo by (simp add: lit_def)
  ultimately show ?thesis
    unfolding lo by simp
qed

theorem mcq_labels_and_answer_witness:
  "Inr [(mcq_question (lit ''a b c d e f''),
         [(lit ''A'', lit ''x''), (lit ''B'', lit ''a b c d e f''), (lit ''C'', lit ''z''),
          (lit ''D'', lit ''y'')],
         lit ''a b c d e f'')]
     \<in> set (generate_mcq_questions (lit ''a b c d e f. x. y. z'')) \<and>
   lit ''a b c d e f'' \<in> snd ` set [(lit ''A'', lit ''x''), (lit ''B'', lit ''a b c d e f''),
                                    (lit ''C'', lit ''z''), (lit ''D'', lit ''y'')]"
proof -
  have "(mcq_question (lit ''a b c d e f''),
         [(lit ''A'', lit ''x''), (lit ''B'', lit ''a b c d e f''), (lit ''C'', lit ''z''),
          (lit ''D'', lit ''y'')],
         lit ''a b c d e f'') \<in> set [(mcq_question (lit ''a b c d e f''),
         [(lit ''A'', lit ''x''), (lit ''B'', lit ''a b c d e f''), (lit ''C'', lit ''z''),
          (lit ''D'', lit ''y'')],
         lit ''a b c d e f'')]"
    by simp
  from mcq_labels_and_answer [OF example_outcome this] example_outcome show ?thesis
    by blast
qed

lemma fragments_repeated:
  "fragments (lit '' a b c d e f. a b c d e f. x. y'') =
     [lit '' a b c d e f'', lit ''a b c d e f'', lit ''x'', lit ''y'']"
  by (simp add: fragments_def lit_def)

lemma qualifies_repeated:
  "qualifies (lit '' a b c d e f'')" "qualifies (lit ''a b c d e f'')"
  by (simp_all add: qualifies_def str_split_ws_def lit_def is_space_def)

lemma strip_repeated:
  "str_strip (lit '' a b c d e f'') = lit ''a b c d e f''"
  "str_strip (lit ''a b c d e f'') = lit ''a b c d e f''"
  by (simp_all add: str_strip_def lit_def is_space_def)

text \<open>
  Claim C4 says that none of the three distractors of an emitted question equals the
  question's correct answer. The code keeps out of the sampling population the fragments
  equal to the fragment itself, while the correct answer is the stripped fragment. On the
  text \<open>" a b c d e f. a b c d e f. x. y"\<close> the first fragment starts with a space, its
  correct answer is the second fragment, and the second fragment is one of its distractors:
  the run below lists the correct answer of the first question under A and under B.
\<close>

theorem mcq_distractor_equals_answer:
  "Inr [(mcq_question (lit '' a b c d e f''),
         [(lit ''A'', lit ''a b c d e f''), (lit ''B'', lit ''a b c d e f''),
          (lit ''C'', lit ''x''), (lit ''D'', lit ''y'')],
         lit ''a b c d e f''),
        (mcq_question (lit ''a b c d e f''),
         [(lit ''A'', lit ''a b c d e f''), (lit ''B'', lit '' a b c d e f''),
          (lit ''C'', lit ''x''), (lit ''D'', lit ''y'')],
         lit ''a b c d e f'')]
     \<in> set (generate_mcq_questions (lit '' a b c d e f. a b c d e f. x. y''))"
proof -
  let ?s1 = "lit '' a b c d e f''" and ?s2 = "lit ''a b c d e f''"
  let ?F = "[?s1, ?s2, lit ''x'', lit ''y'']"
  have o1: "others ?F ?s1 = [?s2, lit ''x'', lit ''y'']"
    and o2: "others ?F ?s2 = [?s1, lit ''x'', lit ''y'']"
    by (simp_all add: others_def lit_def)
  have pick: "[a, b, c] \<in> set (spec_pick_three [a, b, c])" for a b c :: str
    unfolding spec_pick_three_iff
    by (intro exI [of _ 0] exI [of _ "Suc 0"] exI [of _ 2]) simp
  have shuf: "[a, b, c, d] \<in> set (spec_shuffle_four [a, b, c, d])" for a b c d :: str
    unfolding spec_shuffle_four_list by simp
  have m1: "Inr (mcq_question ?s1,
         [(lit ''A'', ?s2), (lit ''B'', ?s2), (lit ''C'', lit ''x''), (lit ''D'', lit ''y'')], ?s2)
        \<in> set (spec_mcq ?F ?s1)"
    unfolding spec_mcq_Inr o1 strip_repeated
    using pick [of ?s2 "lit ''x''" "lit ''y''"] shuf [of ?s2 ?s2 "lit ''x''" "lit ''y''"]
    by (intro conjI exI [of _ "[?s2, lit ''x'', lit ''y'']"]
        exI [of _ "[?s2, ?s2, lit ''x'', lit ''y'']"]) simp_all
  have m2: "Inr (mcq_question ?s2,
         [(lit ''A'', ?s2), (lit ''B'', ?s1), (lit ''C'', lit ''x''), (lit ''D'', lit ''y'')], ?s2)
        \<in> set (spec_mcq ?F ?s2)"
    unfolding spec_mcq_Inr o2 strip_repeated
    using pick [of ?s1 "lit ''x''" "lit ''y''"] shuf [of ?s2 ?s1 "lit ''x''" "lit ''y''"]
    by (intro conjI exI [of _ "[?s1, lit ''x'', lit ''y'']"]
        exI [of _ "[?s2, ?s1, lit ''x'', lit ''y'']"]) simp_all
  have q: "filter qualifies ?F = [?s1, ?s2]"
    using qualifies_repeated by (simp add: qualifies_def str_split_ws_def lit_def is_space_def)
  show ?thesis
    unfolding generate_mcq_Inr fragments_repeated q
    using m1 m2 by simp
qed

text \<open>
  On this text every run repeats the correct answer of the first question among its
  options: the sampling population of the first fragment has exactly three elements, the
  second fragment among them.
\<close>

lemma spec_in_order_returns:
  assumes "\<forall>m\<in>set L. \<forall>r\<in>set m. \<exists>x. r = Inr x"
  shows "\<forall>r\<in>set (spec_in_order L). \<exists>xs. r = Inr xs"
  using assms
proof (induction L)
  case Nil
  show ?case by (simp add: returns_def)
next
  case (Cons m L)
  then have ih: "\<forall>r\<in>set (spec_in_order L). \<exists>xs. r = Inr xs"
    by simp
  have inner: "\<forall>r\<in>set (nd_bind (spec_in_order L) (\<lambda>xs. returns (x # xs))). \<exists>xs. r = Inr xs" for x
    using ih by (auto simp: set_nd_bind returns_def)
  have "spec_in_order (m # L) =
          nd_bind m (\<lambda>x. nd_bind (spec_in_order L) (\<lambda>xs. returns (x # xs)))"
    by simp
  then have "set (spec_in_order (m # L)) =
          {Inl e |e. Inl e \<in> set m} \<union>
          (\<Union>x\<in>{x. Inr x \<in> set m}. set (nd_bind (spec_in_order L) (\<lambda>xs. returns (x # xs))))"
    by (simp only: set_nd_bind [of m])
  moreover have "{Inl e |e. Inl e \<in> set m} = {}"
    using Cons.prems by auto
  ultimately show ?case
    using inner by auto
qed

lemma every_run_repeats_answer:
  "\<forall>r\<in>set (generate_mcq_questions (lit '' a b c d e f. a b c d e f. x. y'')).
     \<exists>question labeled_options rest.
       r = Inr ((question, labeled_options, lit ''a b c d e f'') # rest) \<and>
       count (mset (map snd labeled_options)) (lit ''a b c d e f'') = 2"
proof
  let ?s1 = "lit '' a b c d e f''" and ?s2 = "lit ''a b c d e f''"
  let ?F = "[?s1, ?s2, lit ''x'', lit ''y'']"
  fix r
  assume r: "r \<in> set (generate_mcq_questions (lit '' a b c d e f. a b c d e f. x. y''))"
  have q: "filter qualifies ?F = [?s1, ?s2]"
    using qualifies_repeated by (simp add: qualifies_def str_split_ws_def lit_def is_space_def)
  have o1: "others ?F ?s1 = [?s2, lit ''x'', lit ''y'']"
    and o2: "others ?F ?s2 = [?s1, lit ''x'', lit ''y'']"
    by (simp_all add: others_def lit_def)
  have "\<forall>m\<in>set (map (spec_mcq ?F) [?s1, ?s2]). \<forall>r\<in>set m. \<exists>x. r = Inr x"
    using spec_mcq_enough [of ?F ?s1] spec_mcq_enough [of ?F ?s2] by (simp add: o1 o2)
  from spec_in_order_returns [OF this] r obtain ms where ms: "r = Inr ms"
    unfolding generate_mcq_unfold fragments_repeated q by blast
  with r have "Inr ms \<in> set (generate_mcq_questions (lit '' a b c d e f. a b c d e f. x. y''))"
    by simp
  then have "list_all2 (\<lambda>fragment m. Inr m \<in> set (spec_mcq ?F fragment)) [?s1, ?s2] ms"
    by (simp only: generate_mcq_Inr fragments_repeated q)
  then obtain m1 rest where msl: "ms = m1 # rest" and m1: "Inr m1 \<in> set (spec_mcq ?F ?s1)"
    by (auto simp: list_all2_Cons1)
  from spec_mcq_shape [OF m1] obtain ds a b c d where
    ds: "ds \<in> set (spec_pick_three [?s2, lit ''x'', lit ''y''])" and
    mse: "mset [a, b, c, d] = mset (?s2 # ds)" and
    m1e: "m1 = (mcq_question ?s1,
                [(lit ''A'', a), (lit ''B'', b), (lit ''C'', c), (lit ''D'', d)], ?s2)"
    unfolding o1 strip_repeated by blast
  from ds have "mset ds = mset [?s2, lit ''x'', lit ''y'']"
    by (auto simp: spec_pick_three_def upt_rec split: if_splits)
  with mse have "mset [a, b, c, d] = mset [?s2, ?s2, lit ''x'', lit ''y'']"
    by simp
  then have "count (mset [a, b, c, d]) ?s2 = count (mset [?s2, ?s2, lit ''x'', lit ''y'']) ?s2"
    by (rule arg_cong)
  also have "\<dots> = 2"
    by (simp add: lit_def)
  finally have "count (mset (map snd [(lit ''A'', a), (lit ''B'', b), (lit ''C'', c), (lit ''D'', d)])) ?s2 = 2"
    by simp
  with ms msl m1e show "\<exists>question labeled_options rest.
       r = Inr ((question, labeled_options, ?s2) # rest) \<and>
       count (mset (map snd labeled_options)) ?s2 = 2"
    by blast
qed

text \<open>
  What the code does keep out of the distractors is the unstripped fragment: in every
  returning run, the options of a tuple are the stripped fragment and three fragments of
  the split that differ from the fragment itself, in some order.
\<close>

lemma set_others: "set (others sentences fragment) = set sentences - {fragment}"
  by (auto simp: others_def)

lemma mcq_distractors_exclude_fragment:
  assumes "Inr mcqs \<in> set (generate_mcq_questions text)"
    and "(question, labeled_options, correct_answer) \<in> set mcqs"
  shows "\<exists>fragment distractors.
           fragment \<in> set (fragments text) \<and> qualifies fragment \<and>
           correct_answer = str_strip fragment \<and>
           length distractors = 3 \<and>
           set distractors \<subseteq> set (fragments text) - {fragment} \<and>
           mset (map snd labeled_options) = mset (correct_answer # distractors)"
proof -
  from mcq_of_outcome [OF assms] obtain fragment where
    f: "fragment \<in> set (fragments text)" "qualifies fragment" and
    m: "Inr (question, labeled_options, correct_answer) \<in> set (spec_mcq (fragments text) fragment)"
    by blast
  from spec_mcq_shape [OF m] obtain ds a b c d where
    ds: "ds \<in> set (spec_pick_three (others (fragments text) fragment))" and
    ms: "mset [a, b, c, d] = mset (str_strip fragment # ds)" and
    lo: "labeled_options = [(lit ''A'', a), (lit ''B'', b), (lit ''C'', c), (lit ''D'', d)]" and
    ca: "correct_answer = str_strip fragment"
    by auto
  from ds obtain i j k where
    ijk: "i < length (others (fragments text) fragment)"
      "j < length (others (fragments text) fragment)"
      "k < length (others (fragments text) fragment)" and
    dsl: "ds = [others (fragments text) fragment ! i, others (fragments text) fragment ! j,
                others (fragments text) fragment ! k]"
    unfolding spec_pick_three_iff by blast
  have "set ds \<subseteq> set (others (fragments text) fragment)"
    unfolding dsl using ijk by simp
  then have sub: "set ds \<subseteq> set (fragments text) - {fragment}"
    by (simp add: set_others)
  have len: "length ds = 3"
    unfolding dsl by simp
  have "mset (map snd labeled_options) = mset (correct_answer # ds)"
    unfolding lo ca using ms by simp
  with f ca len sub show ?thesis
    by blast
qed

section \<open>Order of the results\<close>

lemma filter_positions:
  "map ((!) xs) (qualifying_positions P xs) = filter P xs"
proof -
  have "filter P (map ((!) xs) [0..<length xs]) =
          map ((!) xs) (filter (P \<circ> (!) xs) [0..<length xs])"
    by (rule filter_map)
  then show ?thesis
    by (simp add: qualifying_positions_def map_nth comp_def)
qed

lemma positions_increasing: "sorted_wrt (<) (qualifying_positions P xs)"
  unfolding qualifying_positions_def by (rule sorted_wrt_filter) simp

lemma map_positions:
  "map (\<lambda>i. g (xs ! i)) (qualifying_positions P xs) = map g (filter P xs)"
  using filter_positions [of xs P, THEN arg_cong, of "map g"] by (simp add: comp_def)

lemma mcq_sources:
  assumes "list_all2 (\<lambda>fragment m. Inr m \<in> set (spec_mcq sentences fragment)) fs mcqs"
  shows "map (\<lambda>(question, labeled_options, correct_answer). (question, correct_answer)) mcqs =
         map (\<lambda>fragment. (mcq_question fragment, str_strip fragment)) fs"
  using assms
proof (induction rule: list_all2_induct)
  case Nil
  show ?case by simp
next
  case (Cons f fs m mcqs)
  from spec_mcq_shape [OF Cons.hyps(1)] Cons.IH show ?case
    by auto
qed

text \<open>
  Claim C6. The three local generators keep the order of their input. The positions of
  the qualifying fragments (or lines) form an increasing list; the questions of
  \<open>generate_normal_questions\<close> are those of the fragments at these positions, in this
  order; the tuples of every returning run of \<open>generate_mcq_questions\<close> have the questions
  and correct answers of the fragments at these positions, in this order; and the
  flashcards are those of the lines at the positions of the lines with a colon, in this
  order.
\<close>

theorem generation_preserves_order:
  "sorted_wrt (<) (qualifying_positions qualifies (fragments text)) \<and>
   generate_normal_questions text =
     Inr (map (\<lambda>i. lit ''What is the meaning of '' @ [39] @ str_strip (fragments text ! i) @
                     lit ''?'' @ [39])
            (qualifying_positions qualifies (fragments text))) \<and>
   (\<forall>mcqs. Inr mcqs \<in> set (generate_mcq_questions text) \<longrightarrow>
      map (\<lambda>(question, labeled_options, correct_answer). (question, correct_answer)) mcqs =
      map (\<lambda>i. (mcq_question (fragments text ! i), str_strip (fragments text ! i)))
        (qualifying_positions qualifies (fragments text))) \<and>
   sorted_wrt (<) (qualifying_positions (\<lambda>line. 58 \<in> set line) (text_lines text)) \<and>
   generate_flashcards text =
     Inr (map (\<lambda>i. spec_term (text_lines text ! i) @ lit '': '' @
                     spec_definition (text_lines text ! i))
            (qualifying_positions (\<lambda>line. 58 \<in> set line) (text_lines text)))"
proof (intro conjI allI impI)
  show "sorted_wrt (<) (qualifying_positions qualifies (fragments text))"
    by (rule positions_increasing)
  show "sorted_wrt (<) (qualifying_positions (\<lambda>line. 58 \<in> set line) (text_lines text))"
    by (rule positions_increasing)
  have "generate_normal_questions text =
     Inr (map (\<lambda>s. lit ''What is the meaning of '' @ [39] @ str_strip s @ lit ''?'' @ [39])
            (filter qualifies (fragments text)))"
    by (simp add: generate_normal_questions_def str_split_sentences normal_loop_append)
  also have "map (\<lambda>s. lit ''What is the meaning of '' @ [39] @ str_strip s @ lit ''?'' @ [39])
            (filter qualifies (fragments text)) =
       map (\<lambda>i. lit ''What is the meaning of '' @ [39] @ str_strip (fragments text ! i) @
                     lit ''?'' @ [39])
            (qualifying_positions qualifies (fragments text))"
    by (rule map_positions [symmetric])
  finally show "generate_normal_questions text =
     Inr (map (\<lambda>i. lit ''What is the meaning of '' @ [39] @ str_strip (fragments text ! i) @
                     lit ''?'' @ [39])
            (qualifying_positions qualifies (fragments text)))" .
  have "generate_flashcards text =
     Inr (map (\<lambda>line. spec_term line @ lit '': '' @ spec_definition line)
            (filter (\<lambda>line. 58 \<in> set line) (text_lines text)))"
    by (simp add: generate_flashcards_def str_split_def text_lines_def flashcard_loop_append)
  also have "map (\<lambda>line. spec_term line @ lit '': '' @ spec_definition line)
            (filter (\<lambda>line. 58 \<in> set line) (text_lines text)) =
       map (\<lambda>i. spec_term (text_lines text ! i) @ lit '': '' @
                     spec_definition (text_lines text ! i))
            (qualifying_positions (\<lambda>line. 58 \<in> set line) (text_lines text))"
    by (rule map_positions [symmetric])
  finally show "generate_flashcards text =
     Inr (map (\<lambda>i. spec_term (text_lines text ! i) @ lit '': '' @
                     spec_definition (text_lines text ! i))
            (qualifying_positions (\<lambda>line. 58 \<in> set line) (text_lines text)))" .
next
  fix mcqs
  assume "Inr mcqs \<in> set (generate_mcq_questions text)"
  then have "list_all2 (\<lambda>fragment m. Inr m \<in> set (spec_mcq (fragments text) fragment))
       (filter qualifies (fragments text)) mcqs"
    by (simp only: generate_mcq_Inr)
  from mcq_sources [OF this]
  show "map (\<lambda>(question, labeled_options, correct_answer). (question, correct_answer)) mcqs =
      map (\<lambda>i. (mcq_question (fragments text ! i), str_strip (fragments text ! i)))
        (qualifying_positions qualifies (fragments text))"
    by (simp add: map_positions [of "\<lambda>f. (mcq_question f, str_strip f)"])
qed

text \<open>
  Two inputs on which the order shows: a text whose first and third fragments qualify,
  with a run of \<open>generate_mcq_questions\<close> that emits two tuples, and a text whose first and
  third lines hold a colon and are not in alphabetical order.
\<close>

lemma fragments_two:
  "fragments (lit ''a b c d e f. x. g h i j k l. y. z'') =
     [lit ''a b c d e f'', lit ''x'', lit ''g h i j k l'', lit ''y'', lit ''z'']"
  by (simp add: fragments_def lit_def)

lemma qualifies_two:
  "qualifies (lit ''a b c d e f'')" "\<not> qualifies (lit ''x'')" "qualifies (lit ''g h i j k l'')"
  "\<not> qualifies (lit ''y'')" "\<not> qualifies (lit ''z'')"
  by (simp_all add: qualifies_def str_split_ws_def lit_def is_space_def)

lemma strip_two:
  "str_strip (lit ''a b c d e f'') = lit ''a b c d e f''"
  "str_strip (lit ''g h i j k l'') = lit ''g h i j k l''"
  by (simp_all add: str_strip_def lit_def is_space_def)

lemma positions_two:
  "qualifying_positions qualifies (fragments (lit ''a b c d e f. x. g h i j k l. y. z'')) = [0, 2]"
  by (simp add: qualifying_positions_def fragments_two qualifies_two upt_rec)

lemma two_question_outcome:
  "Inr [(mcq_question (lit ''a b c d e f''),
         [(lit ''A'', lit ''x''), (lit ''B'', lit ''a b c d e f''),
          (lit ''C'', lit ''y''), (lit ''D'', lit ''g h i j k l'')],
         lit ''a b c d e f''),
        (mcq_question (lit ''g h i j k l''),
         [(lit ''A'', lit ''g h i j k l''), (lit ''B'', lit ''y''),
          (lit ''C'', lit ''a b c d e f''), (lit ''D'', lit ''x'')],
         lit ''g h i j k l'')]
     \<in> set (generate_mcq_questions (lit ''a b c d e f. x. g h i j k l. y. z''))"
proof -
  let ?f1 = "lit ''a b c d e f''" and ?f2 = "lit ''g h i j k l''"
  let ?F = "[?f1, lit ''x'', ?f2, lit ''y'', lit ''z'']"
  have o1: "others ?F ?f1 = [lit ''x'', ?f2, lit ''y'', lit ''z'']"
    and o2: "others ?F ?f2 = [?f1, lit ''x'', lit ''y'', lit ''z'']"
    by (simp_all add: others_def lit_def)
  have pick: "[a, b, c] \<in> set (spec_pick_three [a, b, c, d])" for a b c d :: str
  proof -
    have "0 < length [a, b, c, d] \<and> 1 < length [a, b, c, d] \<and> 2 < length [a, b, c, d] \<and>
          distinct [0, 1, 2 :: nat] \<and>
          [a, b, c] = [[a, b, c, d] ! 0, [a, b, c, d] ! 1, [a, b, c, d] ! 2]"
      by simp
    then show ?thesis
      unfolding spec_pick_three_iff by blast
  qed
  have m1: "Inr (mcq_question ?f1,
         [(lit ''A'', lit ''x''), (lit ''B'', ?f1), (lit ''C'', lit ''y''), (lit ''D'', ?f2)], ?f1)
        \<in> set (spec_mcq ?F ?f1)"
  proof -
    have "[lit ''x'', ?f1, lit ''y'', ?f2] \<in>
            set (spec_shuffle_four [?f1, lit ''x'', ?f2, lit ''y''])"
      unfolding spec_shuffle_four_list by simp
    with pick [of "lit ''x''" ?f2 "lit ''y''" "lit ''z''"] show ?thesis
      unfolding spec_mcq_Inr o1 strip_two
      by (intro conjI exI [of _ "[lit ''x'', ?f2, lit ''y'']"]
          exI [of _ "[lit ''x'', ?f1, lit ''y'', ?f2]"]) simp_all
  qed
  have m2: "Inr (mcq_question ?f2,
         [(lit ''A'', ?f2), (lit ''B'', lit ''y''), (lit ''C'', ?f1), (lit ''D'', lit ''x'')], ?f2)
        \<in> set (spec_mcq ?F ?f2)"
  proof -
    have "[?f2, lit ''y'', ?f1, lit ''x''] \<in>
            set (spec_shuffle_four [?f2, ?f1, lit ''x'', lit ''y''])"
      unfolding spec_shuffle_four_list by simp
    with pick [of ?f1 "lit ''x''" "lit ''y''" "lit ''z''"] show ?thesis
      unfolding spec_mcq_Inr o2 strip_two
      by (intro conjI exI [of _ "[?f1, lit ''x'', lit ''y'']"]
          exI [of _ "[?f2, lit ''y'', ?f1, lit ''x'']"]) simp_all
  qed
  have q: "filter qualifies ?F = [?f1, ?f2]"
    by (simp add: qualifies_two)
  show ?thesis
    unfolding generate_mcq_Inr fragments_two q
    using m1 m2 by simp
qed

lemma text_lines_two:
  "text_lines (lit ''b: 2\<newline>zz\<newline>a: 1'') = [lit ''b: 2'', lit ''zz'', lit ''a: 1'']"
  by (simp add: text_lines_def lit_def)

lemma positions_lines_two:
  "qualifying_positions (\<lambda>line. 58 \<in> set line) (text_lines (lit ''b: 2\<newline>zz\<newline>a: 1'')) =
     [0, 2]"
  by (simp add: qualifying_positions_def text_lines_two upt_rec) (simp add: lit_def)

lemma cards_two:
  "spec_term (lit ''b: 2'') @ lit '': '' @ spec_definition (lit ''b: 2'') = lit ''b: 2''"
  "spec_term (lit ''a: 1'') @ lit '': '' @ spec_definition (lit ''a: 1'') = lit ''a: 1''"
  by (simp_all add: spec_term_def spec_definition_def str_strip_def is_space_def lit_def)

theorem generation_preserves_order_witness:
  "Inr [(mcq_question (lit ''a b c d e f''),
         [(lit ''A'', lit ''x''), (lit ''B'', lit ''a b c d e f''),
          (lit ''C'', lit ''y''), (lit ''D'', lit ''g h i j k l'')],
         lit ''a b c d e f''),
        (mcq_question (lit ''g h i j k l''),
         [(lit ''A'', lit ''g h i j k l''), (lit ''B'', lit ''y''),
          (lit ''C'', lit ''a b c d e f''), (lit ''D'', lit ''x'')],
         lit ''g h i j k l'')]
     \<in> set (generate_mcq_questions (lit ''a b c d e f. x. g h i j k l. y. z'')) \<and>
   qualifying_positions qualifies (fragments (lit ''a b c d e f. x. g h i j k l. y. z'')) = [0, 2] \<and>
   [(mcq_question (lit ''a b c d e f''), lit ''a b c d e f''),
    (mcq_question (lit ''g h i j k l''), lit ''g h i j k l'')] =
     [(mcq_question (fragments (lit ''a b c d e f. x. g h i j k l. y. z'') ! 0),
       str_strip (fragments (lit ''a b c d e f. x. g h i j k l. y. z'') ! 0)),
      (mcq_question (fragments (lit ''a b c d e f. x. g h i j k l. y. z'') ! 2),
       str_strip (fragments (lit ''a b c d e f. x. g h i j k l. y. z'') ! 2))] \<and>
   generate_normal_questions (lit ''a b c d e f. x. g h i j k l. y. z'') =
     Inr [lit ''What is the meaning of '' @ [39] @ lit ''a b c d e f'' @ lit ''?'' @ [39],
          lit ''What is the meaning of '' @ [39] @ lit ''g h i j k l'' @ lit ''?'' @ [39]] \<and>
   generate_flashcards (lit ''b: 2\<newline>zz\<newline>a: 1'') = Inr [lit ''b: 2'', lit ''a: 1'']"
proof -
  note thm1 = generation_preserves_order [of "lit ''a b c d e f. x. g h i j k l. y. z''"]
  note thm2 = generation_preserves_order [of "lit ''b: 2\<newline>zz\<newline>a: 1''"]
  note order = thm1 [THEN conjunct2, THEN conjunct2, THEN conjunct1, THEN spec, THEN mp,
      OF two_question_outcome]
  have mcq: "[(mcq_question (lit ''a b c d e f''), lit ''a b c d e f''),
    (mcq_question (lit ''g h i j k l''), lit ''g h i j k l'')] =
     [(mcq_question (fragments (lit ''a b c d e f. x. g h i j k l. y. z'') ! 0),
       str_strip (fragments (lit ''a b c d e f. x. g h i j k l. y. z'') ! 0)),
      (mcq_question (fragments (lit ''a b c d e f. x. g h i j k l. y. z'') ! 2),
       str_strip (fragments (lit ''a b c d e f. x. g h i j k l. y. z'') ! 2))]"
    using order unfolding positions_two by (simp only: list.map prod.case)
  have "generate_normal_questions (lit ''a b c d e f. x. g h i j k l. y. z'') =
     Inr (map (\<lambda>i. lit ''What is the meaning of '' @ [39] @
                     str_strip (fragments (lit ''a b c d e f. x. g h i j k l. y. z'') ! i) @
                     lit ''?'' @ [39]) [0, 2])"
    using thm1 [THEN conjunct2, THEN conjunct1] unfolding positions_two .
  then have normal: "generate_normal_questions (lit ''a b c d e f. x. g h i j k l. y. z'') =
     Inr [lit ''What is the meaning of '' @ [39] @ lit ''a b c d e f'' @ lit ''?'' @ [39],
          lit ''What is the meaning of '' @ [39] @ lit ''g h i j k l'' @ lit ''?'' @ [39]]"
    by (simp add: fragments_two strip_two)
  have "generate_flashcards (lit ''b: 2\<newline>zz\<newline>a: 1'') =
     Inr (map (\<lambda>i. spec_term (text_lines (lit ''b: 2\<newline>zz\<newline>a: 1'') ! i) @ lit '': '' @
                     spec_definition (text_lines (lit ''b: 2\<newline>zz\<newline>a: 1'') ! i)) [0, 2])"
    using thm2 [THEN conjunct2, THEN conjunct2, THEN conjunct2, THEN conjunct2]
    unfolding positions_lines_two .
  then have cards: "generate_flashcards (lit ''b: 2\<newline>zz\<newline>a: 1'') =
     Inr [lit ''b: 2'', lit ''a: 1'']"
    by (simp add: text_lines_two cards_two)
  from two_question_outcome positions_two mcq normal cards show ?thesis
    by (intro conjI)
qed

section \<open>Retrying\<close>

lemma retry_loop_success:
  assumes "0 \<le> delay"
    and "k \<le> m" and "m < n"
    and "\<forall>i. k \<le> i \<and> i < m \<longrightarrow> (\<exists>e. post i = RequestException e)"
    and "post m = Response r"
  shows "retry_loop post (int n) delay [int k..int n - 1] log =
           (log @ concat (replicate (m - k) [Post, Sleep delay]) @ [Post], Inr (Some r))"
  using assms
proof (induction "m - k" arbitrary: k log)
  case 0
  then have "k = m" by simp
  moreover have "[int m..int n - 1] = int m # [int m + 1..int n - 1]"
    using 0 by (intro upto_rec1) simp
  ultimately show ?case
    using 0 by simp
next
  case (Suc d)
  then have km: "k < m" by simp
  with Suc.prems obtain e where e: "post k = RequestException e"
    by auto
  have up: "[int k..int n - 1] = int k # [int k + 1..int n - 1]"
    using km Suc.prems by (intro upto_rec1) simp
  have "retry_loop post (int n) delay [int (Suc k)..int n - 1] (log @ [Post, Sleep delay]) =
          ((log @ [Post, Sleep delay]) @ concat (replicate (m - Suc k) [Post, Sleep delay]) @ [Post],
           Inr (Some r))"
    using Suc.hyps(2) Suc.prems km by (intro Suc.hyps(1)) auto
  then have ih: "retry_loop post (int n) delay [int k + 1..int n - 1] (log @ [Post, Sleep delay]) =
          (log @ [Post, Sleep delay] @ concat (replicate (m - Suc k) [Post, Sleep delay]) @ [Post],
           Inr (Some r))"
    by (simp add: add.commute)
  have rep: "replicate (m - k) [Post, Sleep delay] =
               [Post, Sleep delay] # replicate (m - Suc k) [Post, Sleep delay]"
    using km by (simp add: Suc_diff_Suc flip: replicate_Suc)
  have lt: "int k < int n - 1"
    using km Suc.prems by simp
  have d: "\<not> delay < 0"
    using Suc.prems by simp
  show ?case
    unfolding up rep by (simp add: e lt d ih del: of_nat_less_iff)
qed

lemma retry_loop_exhausted:
  assumes "0 \<le> delay"
    and "k < n"
    and "\<forall>i. k \<le> i \<and> i < n \<longrightarrow> (\<exists>e. post i = RequestException e)"
    and "post (n - 1) = RequestException e"
  shows "retry_loop post (int n) delay [int k..int n - 1] log =
           (log @ concat (replicate (n - 1 - k) [Post, Sleep delay]) @ [Post], Inl (RequestError e))"
  using assms
proof (induction "n - 1 - k" arbitrary: k log)
  case 0
  then have n: "n = Suc k" by simp
  have up: "[int k..int n - 1] = [int k]"
    by (simp add: n)
  have lt: "\<not> int k < int n - 1"
    by (simp add: n)
  from 0 have e: "post k = RequestException e"
    by (simp add: n)
  show ?case
    unfolding up by (simp add: e lt) (simp add: n)
next
  case (Suc d)
  then have kn: "Suc k < n" by simp
  with Suc.prems obtain e' where e': "post k = RequestException e'"
    by (metis le_refl Suc_lessD)
  have up: "[int k..int n - 1] = int k # [int k + 1..int n - 1]"
    using kn by (intro upto_rec1) simp
  have "retry_loop post (int n) delay [int (Suc k)..int n - 1] (log @ [Post, Sleep delay]) =
          ((log @ [Post, Sleep delay]) @ concat (replicate (n - 1 - Suc k) [Post, Sleep delay]) @ [Post],
           Inl (RequestError e))"
    using Suc.hyps(2) Suc.prems kn by (intro Suc.hyps(1)) auto
  then have ih: "retry_loop post (int n) delay [int k + 1..int n - 1] (log @ [Post, Sleep delay]) =
          (log @ [Post, Sleep delay] @ concat (replicate (n - 1 - Suc k) [Post, Sleep delay]) @ [Post],
           Inl (RequestError e))"
    by (simp add: add.commute)
  have rep: "replicate (n - 1 - k) [Post, Sleep delay] =
               [Post, Sleep delay] # replicate (n - 1 - Suc k) [Post, Sleep delay]"
    using kn by (simp add: Suc_diff_Suc flip: replicate_Suc)
  have lt: "int k < int n - 1"
    using kn by simp
  have d: "\<not> delay < 0"
    using Suc.prems by simp
  show ?case
    unfolding up rep by (simp add: e' lt d ih del: of_nat_less_iff)
qed

text \<open>
  Claim C7. With \<open>n\<close> retries and a delay that is not negative, where a failed attempt is
  one that raises a \<open>RequestException\<close>: if the attempts before attempt \<open>m < n\<close> fail and
  attempt \<open>m\<close> succeeds, the wrapper returns the response of attempt \<open>m\<close>, having made
  \<open>m + 1\<close> calls with one sleep of the delay behind each failed one; if all \<open>n\<close> attempts
  fail, it raises the exception of the last attempt, having made \<open>n\<close> calls with a sleep
  after each but the last. A call that passes neither number uses 3 retries and a delay
  of 5.
\<close>

theorem hf_api_with_retries_spec:
  assumes "0 \<le> delay"
  shows "(m < n \<and> (\<forall>i<m. \<exists>e. post i = RequestException e) \<and> post m = Response r \<longrightarrow>
            hf_api_with_retries post (int n) delay =
              (concat (replicate m [Post, Sleep delay]) @ [Post], Inr (Some r))) \<and>
         (0 < n \<and> (\<forall>i<n. \<exists>e. post i = RequestException e) \<and> post (n - 1) = RequestException e \<longrightarrow>
            hf_api_with_retries post (int n) delay =
              (concat (replicate (n - 1) [Post, Sleep delay]) @ [Post], Inl (RequestError e))) \<and>
         hf_api_with_retries_default post = hf_api_with_retries post 3 5"
proof (intro conjI impI)
  assume a: "m < n \<and> (\<forall>i<m. \<exists>e. post i = RequestException e) \<and> post m = Response r"
  then have "retry_loop post (int n) delay [int 0..int n - 1] [] =
           ([] @ concat (replicate (m - 0) [Post, Sleep delay]) @ [Post], Inr (Some r))"
    using assms by (intro retry_loop_success) auto
  then show "hf_api_with_retries post (int n) delay =
              (concat (replicate m [Post, Sleep delay]) @ [Post], Inr (Some r))"
    by (simp add: hf_api_with_retries_def)
next
  assume a: "0 < n \<and> (\<forall>i<n. \<exists>e. post i = RequestException e) \<and> post (n - 1) = RequestException e"
  then have "retry_loop post (int n) delay [int 0..int n - 1] [] =
           ([] @ concat (replicate (n - 1 - 0) [Post, Sleep delay]) @ [Post], Inl (RequestError e))"
    using assms by (intro retry_loop_exhausted) auto
  then show "hf_api_with_retries post (int n) delay =
              (concat (replicate (n - 1) [Post, Sleep delay]) @ [Post], Inl (RequestError e))"
    by (simp add: hf_api_with_retries_def)
next
  show "hf_api_with_retries_default post = hf_api_with_retries post 3 5"
    by (simp add: hf_api_with_retries_default_def)
qed

theorem hf_api_with_retries_spec_witness:
  "hf_api_with_retries_default refused_twice =
     ([Post, Sleep 5, Post, Sleep 5, Post], Inr (Some 2)) \<and>
   hf_api_with_retries_default refused_always =
     ([Post, Sleep 5, Post, Sleep 5, Post], Inl (RequestError 2))"
proof -
  have d: "(0::int) \<le> 5" by simp
  have r2: "concat (replicate 2 [Post, Sleep 5]) @ [Post] = [Post, Sleep 5, Post, Sleep 5, Post]"
    by (simp add: numeral_2_eq_2)
  have p1: "(2::nat) < 3 \<and> (\<forall>i<2. \<exists>e. refused_twice i = RequestException e) \<and>
            refused_twice 2 = Response 2"
    by (simp add: refused_twice_def)
  have p2: "(0::nat) < 3 \<and> (\<forall>i<3. \<exists>e. refused_always i = RequestException e) \<and>
            refused_always (3 - 1) = RequestException 2"
    by (simp add: refused_always_def)
  note spec1 = hf_api_with_retries_spec [OF d, where m = 2 and n = 3 and post = refused_twice and r = 2]
  note spec2 = hf_api_with_retries_spec [OF d, where n = 3 and post = refused_always and e = 2]
  have a: "hf_api_with_retries refused_twice (int 3) 5 =
             (concat (replicate 2 [Post, Sleep 5]) @ [Post], Inr (Some 2))"
    by (rule spec1 [THEN conjunct1, THEN mp, OF p1])
  have b: "hf_api_with_retries refused_always (int 3) 5 =
             (concat (replicate (3 - 1) [Post, Sleep 5]) @ [Post], Inl (RequestError 2))"
    by (rule spec2 [THEN conjunct2, THEN conjunct1, THEN mp, OF p2])
  have c1: "hf_api_with_retries_default refused_twice = hf_api_with_retries refused_twice 3 5"
    by (rule spec1 [THEN conjunct2, THEN conjunct2])
  have c2: "hf_api_with_retries_default refused_always = hf_api_with_retries refused_always 3 5"
    by (rule spec2 [THEN conjunct2, THEN conjunct2])
  have i3: "int 3 = 3" by simp
  have s2: "(3::nat) - 1 = 2" by simp
  from a b show ?thesis
    unfolding c1 c2 i3 s2 r2 by (rule conjI)
qed

section \<open>Credentials at startup\<close>

text \<open>
  Claim C8, as amended. The two credentials are read from the process environment at
  startup. If either is absent or is the empty string, the script reports the error and
  stops before any call that sets up the user interface; if both are present and not
  empty, it goes on to set up the user interface.
\<close>

theorem startup_credentials:
  "(truthy (environ (lit ''HUGGINGFACE_QA_KEY'')) \<and> truthy (environ (lit ''HUGGINGFACE_SUMMARY_KEY'')) \<longrightarrow>
      startup environ = [St_set_page_config, St_title, St_markdown, St_sidebar_selectbox] \<and>
      \<not> halts (startup environ) \<and> renders_ui (startup environ)) \<and>
   (\<not> (truthy (environ (lit ''HUGGINGFACE_QA_KEY'')) \<and> truthy (environ (lit ''HUGGINGFACE_SUMMARY_KEY''))) \<longrightarrow>
      (\<exists>message. startup environ = [St_error message, St_stop]) \<and>
      halts (startup environ) \<and> \<not> renders_ui (startup environ)) \<and>
   (truthy (environ name) \<longleftrightarrow> (\<exists>v. environ name = Some v \<and> v \<noteq> []))"
  by (auto simp: startup_def halts_def renders_ui_def truthy_def Let_def split: option.splits)

theorem startup_credentials_witness:
  "startup both_keys_environ = [St_set_page_config, St_title, St_markdown, St_sidebar_selectbox] \<and>
   halts (startup no_keys_environ) \<and> \<not> renders_ui (startup no_keys_environ)"
proof -
  have t: "truthy (both_keys_environ (lit ''HUGGINGFACE_QA_KEY'')) \<and>
           truthy (both_keys_environ (lit ''HUGGINGFACE_SUMMARY_KEY''))"
    by (simp add: both_keys_environ_def truthy_def lit_def)
  have f: "\<not> (truthy (no_keys_environ (lit ''HUGGINGFACE_QA_KEY'')) \<and>
              truthy (no_keys_environ (lit ''HUGGINGFACE_SUMMARY_KEY'')))"
    by (simp add: no_keys_environ_def truthy_def)
  from startup_credentials [of both_keys_environ] startup_credentials [of no_keys_environ] t f
  show ?thesis
    by blast
qed

text \<open>
  The claim as the specification words it lets the script proceed whenever both
  credentials are present. In the environment below both are present, the first one as
  the empty string, and the script halts without rendering the user interface.
\<close>

theorem startup_present_counterexample:
  "empty_key_environ (lit ''HUGGINGFACE_QA_KEY'') = Some [] \<and>
   empty_key_environ (lit ''HUGGINGFACE_SUMMARY_KEY'') = Some (lit ''hf_abc'') \<and>
   halts (startup empty_key_environ) \<and> \<not> renders_ui (startup empty_key_environ)"
  by (simp add: empty_key_environ_def startup_def halts_def renders_ui_def truthy_def lit_def)

end
